theory Spec2Isabelle
  imports Main "HOL-Library.Multiset" "HOL-Library.AList" "HOL-Library.Char_ord" "HOL-Library.List_Lexorder"
begin

chapter \<open>Concurrent Prometheus queries: \<open>pkg/prom/query.go\<close>\<close>

text \<open>
  A \<open>Context\<close> wraps a Prometheus client, an error collector and a semaphore. \<open>Query\<close>
  makes a channel, starts a goroutine and returns the channel; the goroutine takes a
  permit, asks the backend, gives the permit back, reports the errors it met and sends
  the parsed results on its channel. \<open>QueryAll\<close> does this for each query in turn.

  The goroutines are modelled by an interleaving semantics: the state holds the shared
  objects of the \<open>Context\<close>, the channels and, for each goroutine, the statement it is
  about to execute with its local variables; an execution is any sequence of calls of
  \<open>Query\<close> and of single statements of goroutines.
\<close>

section \<open>Values of the Go program\<close>

text \<open>A Go \<open>error\<close> is represented by its message; \<open>nil\<close> is \<open>None\<close> of
  \<open>error option\<close>.\<close>

type_synonym error = string

text \<open>What \<open>json.Unmarshal\<close> stores into an \<open>interface{}\<close>: \<open>JNull\<close> is the nil
  interface value. Numbers keep their literal text.\<close>

datatype json =
    JNull
  | JBool bool
  | JNumber string
  | JString string
  | JArray "json list"
  | JObject "(string \<times> json) list"

text \<open>A Go slice is either nil or a (possibly empty) sequence; \<open>append\<close> on either yields
  a non-nil slice.\<close>

datatype 'a slice = NilSlice | Slice "'a list"

fun elems :: "'a slice \<Rightarrow> 'a list" where
  "elems NilSlice = []"
| "elems (Slice xs) = xs"

definition len :: "'a slice \<Rightarrow> nat" where
  "len sl = length (elems sl)"

definition append_slice :: "'a slice \<Rightarrow> 'a \<Rightarrow> 'a slice" where
  "append_slice sl x = Slice (elems sl @ [x])"

subsection \<open>Formatting (\<open>fmt.Errorf\<close>, \<open>klog.Infof\<close>)\<close>

definition digit_char :: "nat \<Rightarrow> char" where
  "digit_char n = char_of (48 + n)"

function show_nat :: "nat \<Rightarrow> string" where
  "show_nat n = (if n < 10 then [digit_char n] else show_nat (n div 10) @ [digit_char (n mod 10)])"
  by pat_completeness auto
termination
  by (relation "measure id") auto

declare show_nat.simps [simp del]

text \<open>The verb \<open>%d\<close> applied to a Go \<open>int\<close>.\<close>

definition show_int :: "int \<Rightarrow> string" where
  "show_int i = (if i < 0 then CHR ''-'' # show_nat (nat (- i)) else show_nat (nat i))"

section \<open>The standard library and the Prometheus client\<close>

subsection \<open>\<open>net/url\<close>: query values and their encoding\<close>

record URL =
  Scheme :: string
  Host :: string
  Path :: string
  RawQuery :: string

text \<open>\<open>url.Values\<close> is a \<open>map[string][]string\<close>. It is kept as an association list that is
  only read through \<open>map_of\<close>, so a key has one entry as in the Go map.\<close>

type_synonym Values = "(string \<times> string list) list"

definition Values_Set :: "Values \<Rightarrow> string \<Rightarrow> string \<Rightarrow> Values" where
  "Values_Set v key val = AList.update key [val] v"

definition Values_lookup :: "Values \<Rightarrow> string \<Rightarrow> string list" where
  "Values_lookup v key = (case map_of v key of None \<Rightarrow> [] | Some vs \<Rightarrow> vs)"

definition isAlnum :: "char \<Rightarrow> bool" where
  "isAlnum c = (let n = (of_char c :: nat) in
     (97 \<le> n \<and> n \<le> 122) \<or> (65 \<le> n \<and> n \<le> 90) \<or> (48 \<le> n \<and> n \<le> 57))"

text \<open>\<open>shouldEscape(c, encodeQueryComponent)\<close>: letters, digits and the marks
  \<open>- _ . ~\<close> stay; the reserved characters and everything else are escaped.\<close>

definition shouldEscape :: "char \<Rightarrow> bool" where
  "shouldEscape c = (\<not> isAlnum c \<and> c \<notin> set ''-_.~'')"

definition upperhex :: "nat \<Rightarrow> char" where
  "upperhex n = ''0123456789ABCDEF'' ! n"

fun QueryEscape :: "string \<Rightarrow> string" where
  "QueryEscape [] = []"
| "QueryEscape (c # cs) =
     (if c = CHR '' '' then ''+''
      else if shouldEscape c then [CHR ''%'', upperhex (of_char c div 16), upperhex (of_char c mod 16)]
      else [c]) @ QueryEscape cs"




text \<open>\<open>Values.Encode\<close>: the keys in sorted order, each value as \<open>key=value\<close> with both
  sides escaped, the pairs joined by \<open>&\<close>.\<close>

definition encode_key :: "Values \<Rightarrow> string \<Rightarrow> string list" where
  "encode_key v key = map (\<lambda>val. QueryEscape key @ ''='' @ QueryEscape val) (Values_lookup v key)"

definition encode_pairs :: "Values \<Rightarrow> string list" where
  "encode_pairs v = concat (map (encode_key v) (sort (remdups (map fst v))))"

fun join_amp :: "string list \<Rightarrow> string" where
  "join_amp [] = []"
| "join_amp [p] = p"
| "join_amp (p # ps) = p @ ''&'' @ join_amp ps"

definition Values_Encode :: "Values \<Rightarrow> string" where
  "Values_Encode v = join_amp (encode_pairs v)"

subsection \<open>\<open>net/http\<close>: requests\<close>

record Request =
  Method :: string
  ReqURL :: URL
  Body :: "string option"

record Response =
  StatusCode :: int

definition isTokenChar :: "char \<Rightarrow> bool" where
  "isTokenChar c = (isAlnum c \<or> c \<in> set (''!#$%&*+-.^_|~'' @ [CHR 0x27, CHR 0x60]))"

definition validMethod :: "string \<Rightarrow> bool" where
  "validMethod m = (m \<noteq> [] \<and> list_all isTokenChar m)"

text \<open>Parts of the libraries that the program calls and that are not modelled further:
  parsing and printing of URLs and JSON decoding.\<close>

record stdlib =
  url_Parse :: "string \<Rightarrow> error + URL"
  url_String :: "URL \<Rightarrow> string"
  url_ParseQuery :: "string \<Rightarrow> Values"
  json_Unmarshal :: "string \<Rightarrow> error + json"

text \<open>\<open>http.NewRequest(method, url, body)\<close>: fails on an invalid method or a URL that does
  not parse.\<close>

definition http_NewRequest :: "stdlib \<Rightarrow> string \<Rightarrow> string \<Rightarrow> string option \<Rightarrow> error + Request" where
  "http_NewRequest lib method urlStr bdy =
     (let m = (if method = [] then ''GET'' else method) in
      if \<not> validMethod m then Inl (''net/http: invalid method '' @ m)
      else case url_Parse lib urlStr of
             Inl e \<Rightarrow> Inl e
           | Inr u \<Rightarrow> Inr \<lparr>Method = m, ReqURL = u, Body = bdy\<rparr>)"

subsection \<open>\<open>prometheus.Client\<close>\<close>

text \<open>What \<open>Client.Do\<close> returns: response (nil or not), body, warnings, error.\<close>

record DoResult =
  do_resp :: "Response option"
  do_body :: string
  do_warnings :: "string list"
  do_err :: "error option"

record Client =
  client_URL :: "string \<Rightarrow> (string \<times> string) list \<Rightarrow> URL"
  client_Do :: "Request \<Rightarrow> DoResult"

section \<open>The shared objects of a \<open>Context\<close>\<close>

text \<open>Modelled from the spec: \<open>util.Semaphore\<close> (the Admission Gate) is not among the
  sources. It holds a fixed capacity and the count of held permits; \<open>Acquire\<close> suspends
  the caller until a permit is available (\<open>None\<close>: the caller cannot proceed) and takes
  it; \<open>Return\<close> gives one permit back.\<close>

record Semaphore =
  capacity :: nat
  held :: nat

definition NewSemaphore :: "nat \<Rightarrow> Semaphore" where
  "NewSemaphore n = \<lparr>capacity = n, held = 0\<rparr>"

definition Acquire :: "Semaphore \<Rightarrow> Semaphore option" where
  "Acquire sem = (if held sem < capacity sem then Some (sem\<lparr>held := held sem + 1\<rparr>) else None)"

definition Return :: "Semaphore \<Rightarrow> Semaphore" where
  "Return sem = sem\<lparr>held := held sem - 1\<rparr>"

text \<open>Modelled from the spec: \<open>util.ErrorCollector\<close> (the Error Aggregator) is not among
  the sources. It is an ordered sequence of errors; \<open>Report\<close> appends a non-nil error
  under mutual exclusion (one atomic step) and ignores nil; \<open>Errors\<close> returns a snapshot.\<close>

type_synonym ErrorCollector = "error list"

definition Report :: "error option \<Rightarrow> ErrorCollector \<Rightarrow> ErrorCollector" where
  "Report e ec = (case e of None \<Rightarrow> ec | Some x \<Rightarrow> ec @ [x])"

definition Errors :: "ErrorCollector \<Rightarrow> error list" where
  "Errors ec = ec"

text \<open>Modelled from the spec: \<open>NewQueryResults\<close> (the Result Parser) is not among the
  sources. It validates the top-level shape, a status indicator and a nested result
  payload, and converts it into the result value; on any shape mismatch (missing fields,
  unexpected types) it returns the zero-value result and a parse error.\<close>

type_synonym QueryResults = "json list"

definition parse_error :: error where
  "parse_error = ''unexpected shape of query result''"

definition NewQueryResults :: "json \<Rightarrow> QueryResults \<times> error option" where
  "NewQueryResults raw =
     (case raw of
        JObject obj \<Rightarrow>
          (case (map_of obj ''status'', map_of obj ''data'') of
             (Some (JString st), Some (JObject payload)) \<Rightarrow>
               (case map_of payload ''result'' of
                  Some (JArray rs) \<Rightarrow> (rs, None)
                | _ \<Rightarrow> ([], Some parse_error))
           | _ \<Rightarrow> ([], Some parse_error))
      | _ \<Rightarrow> ([], Some parse_error))"

text \<open>A \<open>QueryResultsChan\<close>: the values handed over to the receiver so far and whether the
  channel has been closed. The channel is unbuffered; a send is taken to meet a ready
  receiver. A send on a closed channel cannot proceed (it panics).\<close>

record chan =
  delivered :: "QueryResults list"
  closed :: bool

definition make_chan :: chan where
  "make_chan = \<lparr>delivered = [], closed = False\<rparr>"

definition chan_send :: "QueryResults \<Rightarrow> chan \<Rightarrow> chan option" where
  "chan_send v c = (if closed c then None else Some (c\<lparr>delivered := delivered c @ [v]\<rparr>))"

section \<open>The program: \<open>pkg/prom/query.go\<close>\<close>

definition apiPrefix :: string where
  "apiPrefix = ''/api/v1''"

definition epQuery :: string where
  "epQuery = apiPrefix @ ''/query''"

subsection \<open>The goroutine started by \<open>Query\<close>\<close>

text \<open>The control points of the goroutine, one for each statement of \<open>Query\<close>'s function
  literal (lines 68-76) with the body of \<open>query\<close> (lines 81-112) inlined, holding the local
  variables that are live there.\<close>

datatype pc =
    AwaitPermit                              \<comment> \<open>line 82: \<open>ctx.semaphore.Acquire()\<close>\<close>
  | Building                                 \<comment> \<open>lines 85-90: URL and \<open>http.NewRequest\<close>\<close>
  | InFlight Request                         \<comment> \<open>line 95: inside \<open>ctx.Client.Do\<close>\<close>
  | Decoding string                          \<comment> \<open>line 107: \<open>json.Unmarshal(body, ...)\<close>\<close>
  | Returning json "error option"            \<comment> \<open>line 83: the deferred \<open>ctx.semaphore.Return()\<close>\<close>
  | ReportProm json "error option"           \<comment> \<open>line 70: \<open>Report(promErr)\<close>\<close>
  | Parsing json                             \<comment> \<open>line 72: \<open>NewQueryResults(raw)\<close>\<close>
  | ReportParse QueryResults "error option"  \<comment> \<open>line 73: \<open>Report(parseErr)\<close>\<close>
  | Sending QueryResults                     \<comment> \<open>line 75: \<open>resCh <- results\<close>\<close>
  | Done

text \<open>What a statement does to the world outside the goroutine.\<close>

datatype event =
    EvAcquire
  | EvNewRequestFailed
  | EvDo Request
  | EvResponse "string list"
  | EvUnmarshal
  | EvReturn
  | EvReport "error option"
  | EvNewQueryResults
  | EvSend QueryResults

text \<open>Lines 85-88: the URL of the request.\<close>

definition query_URL :: "stdlib \<Rightarrow> Client \<Rightarrow> string \<Rightarrow> URL" where
  "query_URL lib cl query =
     (let u = client_URL cl epQuery [];
          q = url_ParseQuery lib (RawQuery u);
          q = Values_Set q ''query'' query
      in u\<lparr>RawQuery := Values_Encode q\<rparr>)"

text \<open>Line 90.\<close>

definition query_request :: "stdlib \<Rightarrow> Client \<Rightarrow> string \<Rightarrow> error + Request" where
  "query_request lib cl query =
     http_NewRequest lib ''POST'' (url_String lib (query_URL lib cl query)) None"

text \<open>Lines 99-105: the error returned when \<open>Do\<close> failed.\<close>

definition do_error :: "string \<Rightarrow> Response option \<Rightarrow> error \<Rightarrow> error" where
  "do_error query rsp e =
     (case rsp of
        None \<Rightarrow> ''Error '' @ e @ '' fetching query '' @ query
      | Some r \<Rightarrow> show_int (StatusCode r) @ '' Error '' @ e @ '' fetching query '' @ query)"

text \<open>Lines 106-111.\<close>

definition decode :: "stdlib \<Rightarrow> string \<Rightarrow> string \<Rightarrow> json \<times> error option" where
  "decode lib query bdy =
     (case json_Unmarshal lib bdy of
        Inl e \<Rightarrow> (JNull, Some (''Error '' @ e @ '' fetching query '' @ query))
      | Inr toReturn \<Rightarrow> (toReturn, None))"

text \<open>One statement of the goroutine: the event it causes and the next control point.
  \<open>None\<close>: the goroutine has ended.\<close>

fun wstep :: "stdlib \<Rightarrow> Client \<Rightarrow> string \<Rightarrow> pc \<Rightarrow> (event \<times> pc) option" where
  "wstep lib cl query AwaitPermit = Some (EvAcquire, Building)"
| "wstep lib cl query Building =
     (case query_request lib cl query of
        Inl e \<Rightarrow> Some (EvNewRequestFailed, Returning JNull (Some e))
      | Inr req \<Rightarrow> Some (EvDo req, InFlight req))"
| "wstep lib cl query (InFlight req) =
     (let r = client_Do cl req in
      Some (EvResponse (do_warnings r),
            case do_err r of
              Some e \<Rightarrow> Returning JNull (Some (do_error query (do_resp r) e))
            | None \<Rightarrow> Decoding (do_body r)))"
| "wstep lib cl query (Decoding bdy) =
     (let (raw, e) = decode lib query bdy in Some (EvUnmarshal, Returning raw e))"
| "wstep lib cl query (Returning raw promErr) = Some (EvReturn, ReportProm raw promErr)"
| "wstep lib cl query (ReportProm raw promErr) = Some (EvReport promErr, Parsing raw)"
| "wstep lib cl query (Parsing raw) =
     (let (results, parseErr) = NewQueryResults raw
      in Some (EvNewQueryResults, ReportParse results parseErr))"
| "wstep lib cl query (ReportParse results parseErr) = Some (EvReport parseErr, Sending results)"
| "wstep lib cl query (Sending results) = Some (EvSend results, Done)"
| "wstep lib cl query Done = None"

subsection \<open>The \<open>Context\<close> and the goroutines it has started\<close>

record worker =
  wq :: string    \<comment> \<open>the captured \<open>query\<close>\<close>
  wch :: nat      \<comment> \<open>the captured \<open>resCh\<close>, an index into the channels\<close>
  wpc :: pc

text \<open>The three fields of the \<open>Context\<close> (lines 21-25), the pointers followed, together with
  the channels made and goroutines started by its methods, the messages logged, and the
  history of the statements executed so far (with the goroutine that executed each).\<close>

record sys =
  Client :: Client
  ErrorCollector :: ErrorCollector
  semaphore :: Semaphore
  chans :: "chan list"
  workers :: "worker list"
  klog :: "string list"
  trace :: "(nat \<times> event) list"

definition NewContext :: "Client \<Rightarrow> sys" where
  "NewContext client =
     \<lparr>Client = client, ErrorCollector = [], semaphore = NewSemaphore 20,
      chans = [], workers = [], klog = [], trace = []\<rparr>"

text \<open>Lines 96-98: the message that \<open>klog.V(3).Infof\<close> is given for a warning.\<close>

definition warning_msg :: "string \<Rightarrow> string \<Rightarrow> string" where
  "warning_msg query w =
     ''Warning '' @ [CHR 0x27] @ w @ [CHR 0x27] @ '' fetching query '' @ [CHR 0x27] @ query @ [CHR 0x27]"

text \<open>The effect of a statement on the shared state; \<open>None\<close>: the goroutine cannot
  proceed now.\<close>

fun effect :: "event \<Rightarrow> worker \<Rightarrow> sys \<Rightarrow> sys option" where
  "effect EvAcquire w s = map_option (\<lambda>sem. s\<lparr>semaphore := sem\<rparr>) (Acquire (semaphore s))"
| "effect EvReturn w s = Some (s\<lparr>semaphore := Return (semaphore s)\<rparr>)"
| "effect (EvReport e) w s = Some (s\<lparr>ErrorCollector := Report e (ErrorCollector s)\<rparr>)"
| "effect (EvResponse ws) w s = Some (s\<lparr>klog := klog s @ map (warning_msg (wq w)) ws\<rparr>)"
| "effect (EvSend v) w s =
     (if wch w < length (chans s)
      then map_option (\<lambda>c. s\<lparr>chans := (chans s)[wch w := c]\<rparr>) (chan_send v (chans s ! wch w))
      else None)"
| "effect EvNewRequestFailed w s = Some s"
| "effect (EvDo req) w s = Some s"
| "effect EvUnmarshal w s = Some s"
| "effect EvNewQueryResults w s = Some s"

text \<open>Goroutine \<open>i\<close> executes its next statement.\<close>

definition step :: "stdlib \<Rightarrow> nat \<Rightarrow> sys \<Rightarrow> sys option" where
  "step lib i s =
     (if i < length (workers s) then
        let w = workers s ! i in
        case wstep lib (Client s) (wq w) (wpc w) of
          None \<Rightarrow> None
        | Some (e, pc') \<Rightarrow>
            (case effect e w s of
               None \<Rightarrow> None
             | Some s' \<Rightarrow>
                 Some (s'\<lparr>workers := (workers s')[i := w\<lparr>wpc := pc'\<rparr>],
                          trace := trace s' @ [(i, e)]\<rparr>))
      else None)"

subsection \<open>\<open>Query\<close> and \<open>QueryAll\<close>\<close>

text \<open>Lines 65-79: make the channel, start the goroutine, return the channel.\<close>

definition Query :: "string \<Rightarrow> sys \<Rightarrow> nat \<times> sys" where
  "Query query s =
     (let resCh = length (chans s) in
      (resCh,
       s\<lparr>chans := chans s @ [make_chan],
         workers := workers s @ [\<lparr>wq = query, wch = resCh, wpc = AwaitPermit\<rparr>]\<rparr>))"

text \<open>Lines 52-60; the loop of line 55 with its variable \<open>resChs\<close>.\<close>

fun QueryAll_loop :: "string list \<Rightarrow> nat slice \<Rightarrow> sys \<Rightarrow> nat slice \<times> sys" where
  "QueryAll_loop [] resChs s = (resChs, s)"
| "QueryAll_loop (q # queries) resChs s =
     (let (ch, s') = Query q s in QueryAll_loop queries (append_slice resChs ch) s')"

definition QueryAll :: "string list \<Rightarrow> sys \<Rightarrow> nat slice \<times> sys" where
  "QueryAll queries s = QueryAll_loop queries (Slice []) s"

subsection \<open>Executions\<close>

text \<open>An execution interleaves calls of \<open>Query\<close> by the caller with statements of the
  goroutines, in any order. Scheduling a goroutine that cannot proceed or has ended
  changes nothing.\<close>

datatype action = Call string | Sched nat

fun act :: "stdlib \<Rightarrow> action \<Rightarrow> sys \<Rightarrow> sys" where
  "act lib (Call query) s = snd (Query query s)"
| "act lib (Sched i) s = (case step lib i s of None \<Rightarrow> s | Some s' \<Rightarrow> s')"

definition run :: "stdlib \<Rightarrow> action list \<Rightarrow> sys \<Rightarrow> sys" where
  "run lib acts s = foldl (\<lambda>s a. act lib a s) s acts"

section \<open>A test double for the backend\<close>

text \<open>A small library and client on which the definitions evaluate: URLs print as
  \<open>scheme://host/path?query\<close>, a URL with a space does not parse, and the backend answers
  by the text of the request URL.\<close>

definition mock_body :: string where
  "mock_body = ''{status:success,data:{result:[1]}}''"

definition mock_json :: json where
  "mock_json = JObject [(''status'', JString ''success''),
                        (''data'', JObject [(''result'', JArray [JNumber ''1''])])]"

definition mock_lib :: stdlib where
  "mock_lib =
     \<lparr>url_Parse = (\<lambda>str. if CHR '' '' \<in> set str then Inl ''invalid character in host name''
                        else Inr \<lparr>Scheme = [], Host = [], Path = str, RawQuery = []\<rparr>),
      url_String = (\<lambda>u. Scheme u @ ''://'' @ Host u @ Path u @ ''?'' @ RawQuery u),
      url_ParseQuery = (\<lambda>str. []),
      json_Unmarshal = (\<lambda>b. if b = mock_body then Inr mock_json
                            else if b = ''{}'' then Inr (JObject [])
                            else if b = ''null'' then Inr JNull
                            else Inl ''invalid character'')\<rparr>"

definition mock_Do :: "Request \<Rightarrow> DoResult" where
  "mock_Do req =
     (let u = Path (ReqURL req) in
      if u = ''http://prom/api/v1/query?query=up''
      then \<lparr>do_resp = Some \<lparr>StatusCode = 200\<rparr>, do_body = mock_body, do_warnings = [''slow''], do_err = None\<rparr>
      else if u = ''http://prom/api/v1/query?query=html''
      then \<lparr>do_resp = Some \<lparr>StatusCode = 200\<rparr>, do_body = ''<html>'', do_warnings = [], do_err = None\<rparr>
      else if u = ''http://prom/api/v1/query?query=odd''
      then \<lparr>do_resp = Some \<lparr>StatusCode = 200\<rparr>, do_body = ''{}'', do_warnings = [], do_err = None\<rparr>
      else if u = ''http://prom/api/v1/query?query=teapot''
      then \<lparr>do_resp = Some \<lparr>StatusCode = 500\<rparr>, do_body = mock_body, do_warnings = [], do_err = None\<rparr>
      else if u = ''http://prom/api/v1/query?query=q1'' \<or> u = ''http://prom/api/v1/query?query=q2''
      then \<lparr>do_resp = Some \<lparr>StatusCode = 500\<rparr>, do_body = [], do_warnings = [], do_err = Some ''server error''\<rparr>
      else \<lparr>do_resp = None, do_body = [], do_warnings = [], do_err = Some ''connection refused''\<rparr>)"

definition mock_client :: Client where
  "mock_client =
     \<lparr>client_URL = (\<lambda>ep args. \<lparr>Scheme = ''http'', Host = ''prom'', Path = ep, RawQuery = []\<rparr>),
      client_Do = mock_Do\<rparr>"

text \<open>A client whose endpoint has a host that does not parse.\<close>

definition mock_client_badhost :: Client where
  "mock_client_badhost =
     \<lparr>client_URL = (\<lambda>ep args. \<lparr>Scheme = ''http'', Host = ''no host'', Path = ep, RawQuery = []\<rparr>),
      client_Do = mock_Do\<rparr>"

text \<open>Executions of the test double: one successful query, stopped after the decoding
  and run to its end.\<close>

definition run_up_decoded :: sys where
  "run_up_decoded = run mock_lib [Call ''up'', Sched 0, Sched 0, Sched 0, Sched 0] (NewContext mock_client)"

definition run_up_done :: sys where
  "run_up_done = run mock_lib (Call ''up'' # replicate 9 (Sched 0)) (NewContext mock_client)"

definition up_request :: Request where
  "up_request =
     \<lparr>Method = ''POST'',
      ReqURL = \<lparr>Scheme = [], Host = [], Path = ''http://prom/api/v1/query?query=up'', RawQuery = []\<rparr>,
      Body = None\<rparr>"

text \<open>Capacity 1 and two queries that the backend answers with status 500 and an error,
  the goroutines taking turns.\<close>

definition run_500 :: sys where
  "run_500 =
     run mock_lib ([Call ''q1'', Call ''q2''] @ concat (replicate 12 [Sched 0, Sched 1]))
       ((NewContext mock_client)\<lparr>semaphore := NewSemaphore 1\<rparr>)"

text \<open>Capacity 2 and four queries: one succeeds, one has a body that is not JSON, one a
  body of the wrong shape, one a transport error.\<close>

definition mixed_acts :: "action list" where
  "mixed_acts =
     [Call ''up'', Call ''html'', Call ''odd'', Call ''q1''] @
     concat (replicate 13 [Sched 3, Sched 2, Sched 1, Sched 0])"

definition run_mixed :: sys where
  "run_mixed = run mock_lib mixed_acts ((NewContext mock_client)\<lparr>semaphore := NewSemaphore 2\<rparr>)"

text \<open>One query answered by status 500 with a transport error, and one answered by status
  500 without one, each run to its end.\<close>

definition run_q1 :: sys where
  "run_q1 = run mock_lib (Call ''q1'' # replicate 9 (Sched 0)) (NewContext mock_client)"

definition q1_request :: Request where
  "q1_request =
     \<lparr>Method = ''POST'',
      ReqURL = \<lparr>Scheme = [], Host = [], Path = ''http://prom/api/v1/query?query=q1'', RawQuery = []\<rparr>,
      Body = None\<rparr>"

definition run_teapot :: sys where
  "run_teapot = run mock_lib (Call ''teapot'' # replicate 9 (Sched 0)) (NewContext mock_client)"

definition teapot_request :: Request where
  "teapot_request =
     \<lparr>Method = ''POST'',
      ReqURL = \<lparr>Scheme = [], Host = [], Path = ''http://prom/api/v1/query?query=teapot'', RawQuery = []\<rparr>,
      Body = None\<rparr>"

text \<open>One query with a client whose URL does not parse, run to its end.\<close>

definition run_badhost :: sys where
  "run_badhost = run mock_lib (Call ''up'' # replicate 9 (Sched 0)) (NewContext mock_client_badhost)"

text \<open>The request for the query whose body is not JSON, and an execution stopped while the
  request of a query that will meet a transport error is in flight.\<close>

definition html_request :: Request where
  "html_request =
     \<lparr>Method = ''POST'',
      ReqURL = \<lparr>Scheme = [], Host = [], Path = ''http://prom/api/v1/query?query=html'', RawQuery = []\<rparr>,
      Body = None\<rparr>"

definition run_q1_in_flight :: sys where
  "run_q1_in_flight =
     run mock_lib [Call ''q1'', Sched 0, Sched 0] ((NewContext mock_client)\<lparr>semaphore := NewSemaphore 1\<rparr>)"

text \<open>The four queries with the default capacity, and one query that has been called but
  whose goroutine has not started.\<close>

definition run_four :: sys where
  "run_four = run mock_lib mixed_acts (NewContext mock_client)"

definition run_q1_called :: sys where
  "run_q1_called = run mock_lib [Call ''q1''] (NewContext mock_client)"

section \<open>What a goroutine computes, and where it stands\<close>

definition spawned :: "string \<Rightarrow> nat \<Rightarrow> worker" where
  "spawned q c = \<lparr>wq = q, wch = c, wpc = AwaitPermit\<rparr>"

text \<open>The pair that \<open>query\<close> (lines 81-112) returns for a query text.\<close>

definition query_result :: "stdlib \<Rightarrow> Client \<Rightarrow> string \<Rightarrow> json \<times> error option" where
  "query_result lib cl query =
     (case query_request lib cl query of
        Inl e \<Rightarrow> (JNull, Some e)
      | Inr req \<Rightarrow>
          (let r = client_Do cl req in
           case do_err r of
             Some e \<Rightarrow> (JNull, Some (do_error query (do_resp r) e))
           | None \<Rightarrow> decode lib query (do_body r)))"

definition promErr :: "stdlib \<Rightarrow> Client \<Rightarrow> string \<Rightarrow> error option" where
  "promErr lib cl query = snd (query_result lib cl query)"

definition parseErr :: "stdlib \<Rightarrow> Client \<Rightarrow> string \<Rightarrow> error option" where
  "parseErr lib cl query = snd (NewQueryResults (fst (query_result lib cl query)))"

definition results :: "stdlib \<Rightarrow> Client \<Rightarrow> string \<Rightarrow> QueryResults" where
  "results lib cl query = fst (NewQueryResults (fst (query_result lib cl query)))"

text \<open>The statements of \<open>query\<close> before its deferred call, as events.\<close>

definition query_events :: "stdlib \<Rightarrow> Client \<Rightarrow> string \<Rightarrow> event list" where
  "query_events lib cl query =
     EvAcquire #
     (case query_request lib cl query of
        Inl e \<Rightarrow> [EvNewRequestFailed]
      | Inr req \<Rightarrow>
          EvDo req # EvResponse (do_warnings (client_Do cl req)) #
          (case do_err (client_Do cl req) of Some e \<Rightarrow> [] | None \<Rightarrow> [EvUnmarshal]))"

text \<open>All statements of one goroutine, in program order.\<close>

definition worker_events :: "stdlib \<Rightarrow> Client \<Rightarrow> string \<Rightarrow> event list" where
  "worker_events lib cl query =
     query_events lib cl query @
     [EvReturn, EvReport (promErr lib cl query), EvNewQueryResults,
      EvReport (parseErr lib cl query), EvSend (results lib cl query)]"

text \<open>How many statements a goroutine at a control point has executed.\<close>

fun steps_taken :: "stdlib \<Rightarrow> Client \<Rightarrow> string \<Rightarrow> pc \<Rightarrow> nat" where
  "steps_taken lib cl query AwaitPermit = 0"
| "steps_taken lib cl query Building = 1"
| "steps_taken lib cl query (InFlight req) = 2"
| "steps_taken lib cl query (Decoding bdy) = 3"
| "steps_taken lib cl query (Returning raw e) = length (query_events lib cl query)"
| "steps_taken lib cl query (ReportProm raw e) = length (query_events lib cl query) + 1"
| "steps_taken lib cl query (Parsing raw) = length (query_events lib cl query) + 2"
| "steps_taken lib cl query (ReportParse res e) = length (query_events lib cl query) + 3"
| "steps_taken lib cl query (Sending res) = length (query_events lib cl query) + 4"
| "steps_taken lib cl query Done = length (query_events lib cl query) + 5"

text \<open>The local variables at a control point are the ones the program computes for the
  goroutine's query.\<close>

fun pc_ok :: "stdlib \<Rightarrow> Client \<Rightarrow> string \<Rightarrow> pc \<Rightarrow> bool" where
  "pc_ok lib cl query AwaitPermit = True"
| "pc_ok lib cl query Building = True"
| "pc_ok lib cl query (InFlight req) = (query_request lib cl query = Inr req)"
| "pc_ok lib cl query (Decoding bdy) =
     (case query_request lib cl query of
        Inl e \<Rightarrow> False
      | Inr req \<Rightarrow> do_err (client_Do cl req) = None \<and> bdy = do_body (client_Do cl req))"
| "pc_ok lib cl query (Returning raw e) = (query_result lib cl query = (raw, e))"
| "pc_ok lib cl query (ReportProm raw e) = (query_result lib cl query = (raw, e))"
| "pc_ok lib cl query (Parsing raw) = (fst (query_result lib cl query) = raw)"
| "pc_ok lib cl query (ReportParse res e) =
     (NewQueryResults (fst (query_result lib cl query)) = (res, e))"
| "pc_ok lib cl query (Sending res) = (results lib cl query = res)"
| "pc_ok lib cl query Done = True"

text \<open>Control points at which the goroutine holds a permit of the semaphore, and the one
  at which its backend request is in flight.\<close>

fun holding :: "pc \<Rightarrow> bool" where
  "holding Building = True"
| "holding (InFlight req) = True"
| "holding (Decoding bdy) = True"
| "holding (Returning raw e) = True"
| "holding other = False"

fun requesting :: "pc \<Rightarrow> bool" where
  "requesting (InFlight req) = True"
| "requesting other = False"

definition permits_in_use :: "sys \<Rightarrow> nat" where
  "permits_in_use s = length (filter (\<lambda>w. holding (wpc w)) (workers s))"

definition in_flight :: "sys \<Rightarrow> nat" where
  "in_flight s = length (filter (\<lambda>w. requesting (wpc w)) (workers s))"

text \<open>The statements goroutine \<open>i\<close> has executed, in order.\<close>

definition events_of :: "nat \<Rightarrow> (nat \<times> event) list \<Rightarrow> event list" where
  "events_of i tr = map snd (filter (\<lambda>p. fst p = i) tr)"

text \<open>The queries of the calls of \<open>Query\<close> in an execution.\<close>

fun calls :: "action list \<Rightarrow> string list" where
  "calls [] = []"
| "calls (Call q # acts) = q # calls acts"
| "calls (Sched i # acts) = calls acts"

text \<open>The errors a goroutine reports over its whole run.\<close>

definition query_errors :: "stdlib \<Rightarrow> Client \<Rightarrow> string \<Rightarrow> error list" where
  "query_errors lib cl query =
     (case promErr lib cl query of None \<Rightarrow> [] | Some e \<Rightarrow> [e]) @
     (case parseErr lib cl query of None \<Rightarrow> [] | Some e \<Rightarrow> [e])"

definition failed :: "stdlib \<Rightarrow> Client \<Rightarrow> string \<Rightarrow> bool" where
  "failed lib cl query = (promErr lib cl query \<noteq> None \<or> parseErr lib cl query \<noteq> None)"

section \<open>The invariant of executions\<close>

text \<open>The errors reported and the values sent by a sequence of statements.\<close>

fun report_of :: "event \<Rightarrow> error list" where
  "report_of (EvReport (Some x)) = [x]"
| "report_of other = []"

fun send_of :: "event \<Rightarrow> QueryResults list" where
  "send_of (EvSend v) = [v]"
| "send_of other = []"

definition reports :: "event list \<Rightarrow> error list" where
  "reports evs = concat (map report_of evs)"

definition sends :: "event list \<Rightarrow> QueryResults list" where
  "sends evs = concat (map send_of evs)"

text \<open>Every goroutine has its own channel and stands at a control point whose variables
  and history are those of its program; the shared objects hold what the history says:
  the semaphore one permit for each goroutine between \<open>Acquire\<close> and \<open>Return\<close>, the collector
  the errors reported, each channel the values sent by its goroutine.\<close>

definition inv :: "stdlib \<Rightarrow> sys \<Rightarrow> bool" where
  "inv lib s =
     (length (chans s) = length (workers s) \<and>
      (\<forall>p \<in> set (trace s). fst p < length (workers s)) \<and>
      (\<forall>i < length (workers s).
         wch (workers s ! i) = i \<and>
         pc_ok lib (Client s) (wq (workers s ! i)) (wpc (workers s ! i)) \<and>
         events_of i (trace s) =
           take (steps_taken lib (Client s) (wq (workers s ! i)) (wpc (workers s ! i)))
                (worker_events lib (Client s) (wq (workers s ! i))) \<and>
         chans s ! i = \<lparr>delivered = sends (events_of i (trace s)), closed = False\<rparr>) \<and>
      held (semaphore s) = permits_in_use s \<and>
      held (semaphore s) \<le> capacity (semaphore s) \<and>
      ErrorCollector s = reports (map snd (trace s)))"

text \<open>Control points after the call of \<open>query\<close> has returned.\<close>

fun returned :: "pc \<Rightarrow> bool" where
  "returned (ReportProm raw e) = True"
| "returned (Parsing raw) = True"
| "returned (ReportParse res e) = True"
| "returned (Sending res) = True"
| "returned Done = True"
| "returned other = False"

text \<open>Statements of the goroutine that follow the call of \<open>query\<close>.\<close>

fun after_query :: "event \<Rightarrow> bool" where
  "after_query (EvReport e) = True"
| "after_query EvNewQueryResults = True"
| "after_query (EvSend v) = True"
| "after_query other = False"

text \<open>The position of a control point in the program.\<close>

fun rank :: "pc \<Rightarrow> nat" where
  "rank AwaitPermit = 0"
| "rank Building = 1"
| "rank (InFlight req) = 2"
| "rank (Decoding bdy) = 3"
| "rank (Returning raw e) = 4"
| "rank (ReportProm raw e) = 5"
| "rank (Parsing raw) = 6"
| "rank (ReportParse res e) = 7"
| "rank (Sending res) = 8"
| "rank Done = 9"

text \<open>The statement that hands a request to the backend.\<close>

fun is_Do :: "event \<Rightarrow> bool" where
  "is_Do (EvDo req) = True"
| "is_Do other = False"


text \<open>The statements that the goroutines of a state have still to execute, at most.\<close>

definition remaining :: "sys \<Rightarrow> nat" where
  "remaining s = sum_list (map (\<lambda>w. 9 - rank (wpc w)) (workers s))"



section \<open>\<open>QueryAll\<close>: one channel for each query, in order\<close>

lemma Query_fst: "fst (Query q s) = length (chans s)"
  by (simp add: Query_def Let_def)

lemma Query_snd:
  "snd (Query q s) =
     s\<lparr>chans := chans s @ [make_chan], workers := workers s @ [spawned q (length (chans s))]\<rparr>"
  by (simp add: Query_def Let_def spawned_def)

lemma upt_shift: "n # [Suc n..<Suc (n + k)] = [n..<Suc (n + k)]"
  by (simp add: upt_conv_Cons)

lemma QueryAll_loop_chans:
  "elems (fst (QueryAll_loop qs acc s)) =
     elems acc @ [length (chans s)..<length (chans s) + length qs]"
proof (induction qs arbitrary: acc s)
  case Nil
  show ?case by simp
next
  case (Cons q qs)
  show ?case
    by (simp add: Cons.IH Query_def Let_def append_slice_def upt_shift del: upt_Suc)
qed

lemma QueryAll_loop_state:
  "snd (QueryAll_loop qs acc s) =
     s\<lparr>chans := chans s @ replicate (length qs) make_chan,
       workers := workers s @
         map2 spawned qs [length (chans s)..<length (chans s) + length qs]\<rparr>"
proof (induction qs arbitrary: acc s)
  case Nil
  show ?case by simp
next
  case (Cons q qs)
  have "map2 spawned (q # qs) [length (chans s)..<length (chans s) + length (q # qs)] =
        spawned q (length (chans s)) #
        map2 spawned qs [Suc (length (chans s))..<Suc (length (chans s)) + length qs]"
    by (simp add: upt_conv_Cons del: upt_Suc)
  then show ?case
    by (simp add: Cons.IH Query_def Let_def spawned_def replicate_app_Cons_same del: upt_Suc)
qed

text \<open>C10. \<open>QueryAll\<close> with no queries returns an empty slice that is not
  nil and leaves the whole state as it was: no goroutine is started, no statement is
  executed (so no request is issued), and the error collector and the semaphore are
  unchanged.\<close>

theorem QueryAll_no_queries:
  "QueryAll [] s = (Slice [], s) \<and>
   fst (QueryAll [] s) \<noteq> NilSlice \<and> len (fst (QueryAll [] s)) = 0 \<and>
   workers (snd (QueryAll [] s)) = workers s \<and>
   trace (snd (QueryAll [] s)) = trace s \<and>
   ErrorCollector (snd (QueryAll [] s)) = ErrorCollector s \<and>
   semaphore (snd (QueryAll [] s)) = semaphore s"
  by (simp add: QueryAll_def len_def)

section \<open>One statement at a time\<close>

lemma take_Suc_snoc: "n < length xs \<Longrightarrow> take (Suc n) xs = take n xs @ [xs ! n]"
  by (simp add: take_Suc_conv_app_nth)

lemma query_events_length:
  "2 \<le> length (query_events lib cl q) \<and> length (query_events lib cl q) \<le> 4"
  by (simp add: query_events_def split: sum.splits option.splits)

text \<open>Each statement keeps the local variables right and is the next event of the
  goroutine's program.\<close>

lemma wstep_sound:
  assumes "pc_ok lib cl q p" and "wstep lib cl q p = Some (e, p')"
  shows "pc_ok lib cl q p' \<and>
         steps_taken lib cl q p' = Suc (steps_taken lib cl q p) \<and>
         steps_taken lib cl q p < length (worker_events lib cl q) \<and>
         worker_events lib cl q ! steps_taken lib cl q p = e"
proof (cases p)
  case AwaitPermit
  with assms show ?thesis
    by (auto simp: worker_events_def query_events_def)
next
  case Building
  with assms show ?thesis
    by (auto simp: worker_events_def query_events_def query_result_def split: sum.splits)
next
  case (InFlight req)
  with assms show ?thesis
    by (auto simp: worker_events_def query_events_def query_result_def Let_def
             split: sum.splits option.splits)
next
  case (Decoding b)
  with assms show ?thesis
    by (auto simp: worker_events_def query_events_def query_result_def Let_def
             split: sum.splits option.splits prod.splits)
next
  case (Returning raw err)
  with assms show ?thesis
    by (auto simp: worker_events_def nth_append)
next
  case (ReportProm raw err)
  with assms show ?thesis
    by (auto simp: worker_events_def nth_append promErr_def)
next
  case (Parsing raw)
  with assms show ?thesis
    by (auto simp: worker_events_def nth_append split: prod.splits)
next
  case (ReportParse res err)
  with assms show ?thesis
    by (auto simp: worker_events_def nth_append parseErr_def results_def)
next
  case (Sending res)
  with assms show ?thesis
    by (auto simp: worker_events_def nth_append)
next
  case Done
  with assms show ?thesis by simp
qed

text \<open>Which statements take and give back the permit.\<close>

lemma wstep_holding:
  assumes "wstep lib cl q p = Some (e, p')"
  shows "(e = EvAcquire \<longrightarrow> \<not> holding p \<and> holding p') \<and>
         (e = EvReturn \<longrightarrow> holding p \<and> \<not> holding p') \<and>
         (e \<noteq> EvAcquire \<and> e \<noteq> EvReturn \<longrightarrow> holding p' = holding p)"
  using assms by (cases p) (auto simp: Let_def split: sum.splits option.splits prod.splits)

lemma effect_frame:
  assumes "effect e w s = Some s1"
  shows "Client s1 = Client s \<and> workers s1 = workers s \<and> trace s1 = trace s \<and>
         length (chans s1) = length (chans s) \<and>
         capacity (semaphore s1) = capacity (semaphore s) \<and>
         ErrorCollector s1 = ErrorCollector s @ report_of e"
  using assms
  by (cases e) (auto simp: Acquire_def Return_def Report_def split: if_splits option.splits)

lemma effect_semaphore:
  assumes "effect e w s = Some s1"
  shows "(e = EvAcquire \<longrightarrow> held (semaphore s) < capacity (semaphore s) \<and>
            held (semaphore s1) = Suc (held (semaphore s))) \<and>
         (e = EvReturn \<longrightarrow> held (semaphore s1) = held (semaphore s) - 1) \<and>
         (e \<noteq> EvAcquire \<and> e \<noteq> EvReturn \<longrightarrow> semaphore s1 = semaphore s)"
  using assms
  by (cases e) (auto simp: Acquire_def Return_def split: if_splits)

lemma effect_chans:
  assumes "effect e w s = Some s1" and "c < length (chans s)"
  shows "chans s1 ! c =
           (if c = wch w then (chans s ! c)\<lparr>delivered := delivered (chans s ! c) @ send_of e\<rparr>
            else chans s ! c)"
  using assms
  by (cases e) (auto simp: chan_send_def split: if_splits)

lemma stepD:
  assumes "step lib i s = Some s'"
  obtains e p' s1 where
    "i < length (workers s)"
    "wstep lib (Client s) (wq (workers s ! i)) (wpc (workers s ! i)) = Some (e, p')"
    "effect e (workers s ! i) s = Some s1"
    "s' = s1\<lparr>workers := (workers s)[i := (workers s ! i)\<lparr>wpc := p'\<rparr>], trace := trace s @ [(i, e)]\<rparr>"
proof -
  from assms have i: "i < length (workers s)"
    by (simp add: step_def split: if_splits)
  from assms i obtain e p' where
    w: "wstep lib (Client s) (wq (workers s ! i)) (wpc (workers s ! i)) = Some (e, p')"
    by (auto simp: step_def Let_def split: option.splits)
  from assms i w obtain s1 where e: "effect e (workers s ! i) s = Some s1"
    by (auto simp: step_def Let_def split: option.splits)
  from effect_frame [OF e] have "workers s1 = workers s" "trace s1 = trace s" by simp_all
  with assms i w e
  have "s' = s1\<lparr>workers := (workers s)[i := (workers s ! i)\<lparr>wpc := p'\<rparr>], trace := trace s @ [(i, e)]\<rparr>"
    by (simp add: step_def Let_def)
  with i w e show thesis by (rule that)
qed

lemma filter_length_update:
  "i < length xs \<Longrightarrow>
   length (filter P (xs[i := y])) + (if P (xs ! i) then 1 else 0) =
   length (filter P xs) + (if P y then 1 else 0)"
proof (induction xs arbitrary: i)
  case Nil
  then show ?case by simp
next
  case (Cons x xs)
  show ?case
  proof (cases i)
    case 0
    then show ?thesis by simp
  next
    case (Suc j)
    with Cons.prems have "j < length xs" by simp
    from Cons.IH [OF this] Suc show ?thesis by simp
  qed
qed

lemma events_of_snoc:
  "events_of j (tr @ [(i, e)]) = events_of j tr @ (if i = j then [e] else [])"
  by (simp add: events_of_def)

lemma events_of_fresh: "\<forall>p \<in> set tr. fst p < n \<Longrightarrow> events_of n tr = []"
  by (induction tr) (auto simp: events_of_def)

lemma sends_snoc: "sends (evs @ [e]) = sends evs @ send_of e"
  by (simp add: sends_def)

lemma reports_snoc: "reports (evs @ [e]) = reports evs @ report_of e"
  by (simp add: reports_def)


section \<open>The invariant holds in every execution\<close>

lemma inv_step:
  assumes I: "inv lib s" and st: "step lib i s = Some s'"
  shows "inv lib s'"
proof -
  from st obtain e p' s1 where
    i: "i < length (workers s)" and
    w: "wstep lib (Client s) (wq (workers s ! i)) (wpc (workers s ! i)) = Some (e, p')" and
    ef: "effect e (workers s ! i) s = Some s1" and
    s': "s' = s1\<lparr>workers := (workers s)[i := (workers s ! i)\<lparr>wpc := p'\<rparr>], trace := trace s @ [(i, e)]\<rparr>"
    by (rule stepD)
  let ?w = "workers s ! i"
  let ?cl = "Client s"
  note fr = effect_frame [OF ef]
  from I have len: "length (chans s) = length (workers s)"
    and bound: "\<forall>p \<in> set (trace s). fst p < length (workers s)"
    and sem: "held (semaphore s) = permits_in_use s" "held (semaphore s) \<le> capacity (semaphore s)"
    and ec: "ErrorCollector s = reports (map snd (trace s))"
    by (simp_all add: inv_def)
  from I have per: "\<And>j. j < length (workers s) \<Longrightarrow>
      wch (workers s ! j) = j \<and>
      pc_ok lib ?cl (wq (workers s ! j)) (wpc (workers s ! j)) \<and>
      events_of j (trace s) =
        take (steps_taken lib ?cl (wq (workers s ! j)) (wpc (workers s ! j)))
             (worker_events lib ?cl (wq (workers s ! j))) \<and>
      chans s ! j = \<lparr>delivered = sends (events_of j (trace s)), closed = False\<rparr>"
    by (simp add: inv_def)
  from per [OF i] have wi: "wch ?w = i" and ok: "pc_ok lib ?cl (wq ?w) (wpc ?w)"
    and hist: "events_of i (trace s) =
        take (steps_taken lib ?cl (wq ?w) (wpc ?w)) (worker_events lib ?cl (wq ?w))"
    and ch: "chans s ! i = \<lparr>delivered = sends (events_of i (trace s)), closed = False\<rparr>"
    by simp_all
  from wstep_sound [OF ok w] have ok': "pc_ok lib ?cl (wq ?w) p'"
    and n': "steps_taken lib ?cl (wq ?w) p' = Suc (steps_taken lib ?cl (wq ?w) (wpc ?w))"
    and nlt: "steps_taken lib ?cl (wq ?w) (wpc ?w) < length (worker_events lib ?cl (wq ?w))"
    and ev: "worker_events lib ?cl (wq ?w) ! steps_taken lib ?cl (wq ?w) (wpc ?w) = e"
    by simp_all
  have cl': "Client s' = ?cl" and ws': "workers s' = (workers s)[i := ?w\<lparr>wpc := p'\<rparr>]"
    and tr': "trace s' = trace s @ [(i, e)]" and chs': "chans s' = chans s1"
    and sem': "semaphore s' = semaphore s1" and ec': "ErrorCollector s' = ErrorCollector s1"
    using fr by (simp_all add: s')
  have c1: "length (chans s') = length (workers s')"
    using fr len by (simp add: chs' ws')
  have c2: "\<forall>p \<in> set (trace s'). fst p < length (workers s')"
    using bound i by (simp add: tr' ws')
  have c3: "wch (workers s' ! j) = j \<and>
      pc_ok lib (Client s') (wq (workers s' ! j)) (wpc (workers s' ! j)) \<and>
      events_of j (trace s') =
        take (steps_taken lib (Client s') (wq (workers s' ! j)) (wpc (workers s' ! j)))
             (worker_events lib (Client s') (wq (workers s' ! j))) \<and>
      chans s' ! j = \<lparr>delivered = sends (events_of j (trace s')), closed = False\<rparr>"
    if j: "j < length (workers s')" for j
  proof (cases "j = i")
    case True
    have "chans s1 ! i = (chans s ! i)\<lparr>delivered := delivered (chans s ! i) @ send_of e\<rparr>"
      using effect_chans [OF ef, of i] i len wi by simp
    then have "chans s' ! i =
        \<lparr>delivered = sends (events_of i (trace s) @ [e]), closed = False\<rparr>"
      by (simp add: chs' ch sends_snoc)
    moreover have "events_of i (trace s') = events_of i (trace s) @ [e]"
      by (simp add: tr' events_of_snoc)
    moreover have "events_of i (trace s) @ [e] =
        take (steps_taken lib ?cl (wq ?w) p') (worker_events lib ?cl (wq ?w))"
      using nlt ev by (simp add: n' hist take_Suc_snoc)
    ultimately show ?thesis
      using True i wi ok' by (simp add: cl' ws')
  next
    case False
    from j have j': "j < length (workers s)" by (simp add: ws')
    have "chans s1 ! j = chans s ! j"
      using effect_chans [OF ef, of j] j' len wi False by simp
    moreover have "events_of j (trace s') = events_of j (trace s)"
      using False by (simp add: tr' events_of_snoc)
    ultimately show ?thesis
      using False per [OF j'] by (simp add: cl' ws' chs')
  qed
  have cnt: "permits_in_use s' + (if holding (wpc ?w) then 1 else 0) =
             permits_in_use s + (if holding p' then 1 else 0)"
    using filter_length_update [OF i, of "\<lambda>w. holding (wpc w)" "?w\<lparr>wpc := p'\<rparr>"]
    by (simp add: permits_in_use_def ws')
  note hs = wstep_holding [OF w] and es = effect_semaphore [OF ef]
  have c4: "held (semaphore s') = permits_in_use s' \<and> held (semaphore s') \<le> capacity (semaphore s')"
  proof (cases "e = EvAcquire")
    case True
    with hs es cnt sem fr show ?thesis by (simp add: sem')
  next
    case False
    show ?thesis
    proof (cases "e = EvReturn")
      case True
      with hs es cnt sem fr show ?thesis by (simp add: sem') arith
    next
      case nr: False
      with False hs es cnt sem show ?thesis by (simp add: sem')
    qed
  qed
  have c5: "ErrorCollector s' = reports (map snd (trace s'))"
    using fr ec by (simp add: ec' tr' reports_snoc)
  from c1 c2 c3 c4 c5 show ?thesis
    unfolding inv_def by blast
qed

lemma inv_Query:
  assumes I: "inv lib s"
  shows "inv lib (snd (Query q s))"
proof -
  let ?s' = "snd (Query q s)"
  let ?n = "length (workers s)"
  from I have len: "length (chans s) = ?n"
    and bound: "\<forall>p \<in> set (trace s). fst p < ?n"
    by (simp_all add: inv_def)
  have s': "?s' = s\<lparr>chans := chans s @ [make_chan], workers := workers s @ [spawned q ?n]\<rparr>"
    by (simp add: Query_snd len)
  have fresh: "events_of ?n (trace s) = []"
    using bound by (rule events_of_fresh)
  have "permits_in_use ?s' = permits_in_use s"
    by (simp add: s' permits_in_use_def spawned_def)
  moreover have "\<forall>p \<in> set (trace ?s'). fst p < length (workers ?s')"
    using bound by (auto simp: s')
  moreover have "\<forall>j < length (workers ?s').
      wch (workers ?s' ! j) = j \<and>
      pc_ok lib (Client ?s') (wq (workers ?s' ! j)) (wpc (workers ?s' ! j)) \<and>
      events_of j (trace ?s') =
        take (steps_taken lib (Client ?s') (wq (workers ?s' ! j)) (wpc (workers ?s' ! j)))
             (worker_events lib (Client ?s') (wq (workers ?s' ! j))) \<and>
      chans ?s' ! j = \<lparr>delivered = sends (events_of j (trace ?s')), closed = False\<rparr>"
  proof (intro allI impI)
    fix j assume "j < length (workers ?s')"
    then have "j < ?n \<or> j = ?n" by (auto simp: s')
    then consider "j < ?n" | "j = ?n" by blast
    then show "wch (workers ?s' ! j) = j \<and>
      pc_ok lib (Client ?s') (wq (workers ?s' ! j)) (wpc (workers ?s' ! j)) \<and>
      events_of j (trace ?s') =
        take (steps_taken lib (Client ?s') (wq (workers ?s' ! j)) (wpc (workers ?s' ! j)))
             (worker_events lib (Client ?s') (wq (workers ?s' ! j))) \<and>
      chans ?s' ! j = \<lparr>delivered = sends (events_of j (trace ?s')), closed = False\<rparr>"
    proof cases
      case 1
      with I len show ?thesis by (simp add: s' inv_def nth_append)
    next
      case 2
      with fresh len show ?thesis
        by (simp add: s' nth_append spawned_def make_chan_def sends_def)
    qed
  qed
  ultimately show ?thesis
    using I by (simp add: inv_def s' len)
qed

lemma inv_act: "inv lib s \<Longrightarrow> inv lib (act lib a s)"
  by (cases a) (auto simp: inv_Query inv_step split: option.splits)

lemma inv_run: "inv lib s \<Longrightarrow> inv lib (run lib acts s)"
  unfolding run_def by (induction acts arbitrary: s) (simp_all add: inv_act)

lemma inv_NewContext: "inv lib (NewContext cl)"
  by (simp add: inv_def NewContext_def NewSemaphore_def permits_in_use_def reports_def)

text \<open>The goroutines of an execution are those of its calls, in order.\<close>

lemma map_wq_update: "i < length ws \<Longrightarrow> map wq (ws[i := (ws ! i)\<lparr>wpc := p\<rparr>]) = map wq ws"
  by (simp add: map_update list_update_same_conv)

lemma queries_act:
  "map wq (workers (act lib a s)) = map wq (workers s) @ calls [a]"
proof (cases a)
  case (Call q)
  then show ?thesis by (simp add: Query_def Let_def)
next
  case (Sched i)
  show ?thesis
  proof (cases "step lib i s")
    case None
    with Sched show ?thesis by simp
  next
    case (Some s')
    then obtain e p' s1 where i: "i < length (workers s)"
      and s': "s' = s1\<lparr>workers := (workers s)[i := (workers s ! i)\<lparr>wpc := p'\<rparr>], trace := trace s @ [(i, e)]\<rparr>"
      by (rule stepD)
    from i Sched Some show ?thesis by (simp add: s' map_wq_update)
  qed
qed

lemma calls_append: "calls (xs @ ys) = calls xs @ calls ys"
  by (induction xs rule: calls.induct) simp_all

lemma queries_run: "map wq (workers (run lib acts s)) = map wq (workers s) @ calls acts"
proof (induction acts arbitrary: s)
  case Nil
  show ?case by (simp add: run_def)
next
  case (Cons a acts)
  have "run lib (a # acts) s = run lib acts (act lib a s)" by (simp add: run_def)
  moreover have "calls (a # acts) = calls [a] @ calls acts"
    using calls_append [of "[a]" acts] by simp
  ultimately show ?case
    using Cons.IH [of "act lib a s"] queries_act [of lib a s] by (simp only: append_assoc)
qed

section \<open>The bound on requests in flight\<close>

lemma inv_fresh: "inv lib ((NewContext cl)\<lparr>semaphore := NewSemaphore n\<rparr>)"
  by (simp add: inv_def NewContext_def NewSemaphore_def permits_in_use_def reports_def)

lemma capacity_act: "capacity (semaphore (act lib a s)) = capacity (semaphore s)"
proof (cases a)
  case (Call q)
  then show ?thesis by (simp add: Query_def Let_def)
next
  case (Sched i)
  show ?thesis
  proof (cases "step lib i s")
    case None
    with Sched show ?thesis by simp
  next
    case (Some s')
    then obtain e p' s1 where ef: "effect e (workers s ! i) s = Some s1"
      and s': "s' = s1\<lparr>workers := (workers s)[i := (workers s ! i)\<lparr>wpc := p'\<rparr>], trace := trace s @ [(i, e)]\<rparr>"
      by (rule stepD)
    from effect_frame [OF ef] Sched Some show ?thesis by (simp add: s')
  qed
qed

lemma capacity_run: "capacity (semaphore (run lib acts s)) = capacity (semaphore s)"
  unfolding run_def by (induction acts arbitrary: s) (simp_all add: capacity_act)

lemma Client_act: "Client (act lib a s) = Client s"
proof (cases a)
  case (Call q)
  then show ?thesis by (simp add: Query_def Let_def)
next
  case (Sched i)
  show ?thesis
  proof (cases "step lib i s")
    case None
    with Sched show ?thesis by simp
  next
    case (Some s')
    then obtain e p' s1 where ef: "effect e (workers s ! i) s = Some s1"
      and s': "s' = s1\<lparr>workers := (workers s)[i := (workers s ! i)\<lparr>wpc := p'\<rparr>], trace := trace s @ [(i, e)]\<rparr>"
      by (rule stepD)
    from effect_frame [OF ef] Sched Some show ?thesis by (simp add: s')
  qed
qed

lemma Client_run: "Client (run lib acts s) = Client s"
  unfolding run_def by (induction acts arbitrary: s) (simp_all add: Client_act)

lemma requesting_le_holding:
  "length (filter (\<lambda>w. requesting (wpc w)) ws) \<le> length (filter (\<lambda>w. holding (wpc w)) ws)"
proof (induction ws)
  case Nil
  show ?case by simp
next
  case (Cons w ws)
  have "requesting (wpc w) \<Longrightarrow> holding (wpc w)" by (cases "wpc w") simp_all
  with Cons show ?case by auto
qed

lemma in_flight_le_permits: "in_flight s \<le> permits_in_use s"
  by (simp add: in_flight_def permits_in_use_def requesting_le_holding)

text \<open>C3. With the capacity of the semaphore fixed at construction to \<open>n\<close>
  (20 in \<open>NewContext\<close>), in every execution, whatever the number of queries and
  however the goroutines are interleaved, the number of backend requests in flight at any
  instant is at most \<open>n\<close>.\<close>

theorem in_flight_bounded:
  "in_flight (run lib acts ((NewContext client)\<lparr>semaphore := NewSemaphore n\<rparr>)) \<le> n \<and>
   in_flight (run lib acts (NewContext client)) \<le> 20"
proof -
  have bound: "in_flight (run lib acts s) \<le> capacity (semaphore s)" if "inv lib s" for s
  proof -
    from that have "inv lib (run lib acts s)" by (rule inv_run)
    then have "permits_in_use (run lib acts s) \<le> capacity (semaphore (run lib acts s))"
      by (simp add: inv_def)
    with in_flight_le_permits [of "run lib acts s"] show ?thesis
      by (simp add: capacity_run)
  qed
  from bound [OF inv_fresh [where lib = lib and cl = client and n = n]]
       bound [OF inv_NewContext [where lib = lib and cl = client]]
  show ?thesis by (simp add: NewSemaphore_def NewContext_def)
qed

theorem in_flight_bounded_witness:
  "2 \<le> length (calls [Call ''q1'', Call ''up'', Call ''x'', Sched 0, Sched 0, Sched 1, Sched 1, Sched 2, Sched 2]) \<and>
   in_flight (run mock_lib [Call ''q1'', Call ''up'', Call ''x'', Sched 0, Sched 0, Sched 1, Sched 1, Sched 2, Sched 2]
                ((NewContext mock_client)\<lparr>semaphore := NewSemaphore 2\<rparr>)) = 2 \<and>
   in_flight (run mock_lib [Call ''q1'', Call ''up'', Call ''x'', Sched 0, Sched 0, Sched 1, Sched 1, Sched 2, Sched 2]
                ((NewContext mock_client)\<lparr>semaphore := NewSemaphore 2\<rparr>)) \<le> 2"
proof -
  have "2 \<le> length (calls [Call ''q1'', Call ''up'', Call ''x'', Sched 0, Sched 0, Sched 1, Sched 1, Sched 2, Sched 2])"
    by simp
  moreover have "in_flight (run mock_lib [Call ''q1'', Call ''up'', Call ''x'', Sched 0, Sched 0, Sched 1, Sched 1, Sched 2, Sched 2]
                ((NewContext mock_client)\<lparr>semaphore := NewSemaphore 2\<rparr>)) = 2"
    by code_simp
  moreover note conjunct1 [OF in_flight_bounded [where lib = mock_lib and client = mock_client and n = 2
      and acts = "[Call ''q1'', Call ''up'', Call ''x'', Sched 0, Sched 0, Sched 1, Sched 1, Sched 2, Sched 2]"]]
  ultimately show ?thesis by blast
qed

section \<open>The permit of a goroutine\<close>

lemma history:
  assumes "inv lib s" and "i < length (workers s)"
  shows "events_of i (trace s) =
           take (steps_taken lib (Client s) (wq (workers s ! i)) (wpc (workers s ! i)))
                (worker_events lib (Client s) (wq (workers s ! i)))"
    and "pc_ok lib (Client s) (wq (workers s ! i)) (wpc (workers s ! i))"
  using assms by (simp_all add: inv_def)

lemma query_events_only:
  "e \<in> set (query_events lib cl q) \<Longrightarrow> e \<noteq> EvReturn \<and> \<not> after_query e"
  by (auto simp: query_events_def split: sum.splits option.splits)

lemma query_events_Acquire: "count_list (query_events lib cl q) EvAcquire = 1"
  by (simp add: query_events_def split: sum.splits option.splits)

lemma query_events_Return: "count_list (query_events lib cl q) EvReturn = 0"
  by (simp add: query_events_def split: sum.splits option.splits)

lemma permit_counts:
  assumes "pc_ok lib cl q p"
  shows "count_list (take (steps_taken lib cl q p) (worker_events lib cl q)) EvAcquire =
           (if p = AwaitPermit then 0 else 1) \<and>
         count_list (take (steps_taken lib cl q p) (worker_events lib cl q)) EvReturn =
           (if returned p then 1 else 0)"
proof (cases p)
  case (InFlight req)
  with assms show ?thesis
    by (simp add: worker_events_def query_events_def)
next
  case (Decoding b)
  with assms show ?thesis
    by (simp add: worker_events_def query_events_def split: sum.splits)
qed (simp_all add: worker_events_def query_events_Acquire query_events_Return,
     simp_all add: query_events_def)


lemma filter_by_index:
  "length (filter P ws) = length (filter (\<lambda>i. P (ws ! i)) [0..<length ws])"
proof -
  have "filter P (map ((!) ws) [0..<length ws]) =
        map ((!) ws) (filter (P \<circ> (!) ws) [0..<length ws])"
    by (rule filter_map)
  then have "filter P ws = map ((!) ws) (filter (\<lambda>i. P (ws ! i)) [0..<length ws])"
    by (simp add: map_nth comp_def)
  then show ?thesis by (metis length_map)
qed

lemma holding_iff: "holding p \<longleftrightarrow> p \<noteq> AwaitPermit \<and> \<not> returned p"
  by (cases p) simp_all

section \<open>When the permit is given back\<close>

text \<open>In the program of a goroutine the permit is given back after the decoding and
  before everything that follows the call of \<open>query\<close>.\<close>

lemma worker_events_order:
  assumes k: "k < length (worker_events lib cl q)"
  shows "(worker_events lib cl q ! k = EvUnmarshal \<longrightarrow>
            EvReturn \<notin> set (take k (worker_events lib cl q))) \<and>
         (after_query (worker_events lib cl q ! k) \<longrightarrow>
            EvReturn \<in> set (take k (worker_events lib cl q)))"
proof -
  let ?A = "query_events lib cl q"
  let ?B = "[EvReport (promErr lib cl q), EvNewQueryResults,
             EvReport (parseErr lib cl q), EvSend (results lib cl q)]"
  have W: "worker_events lib cl q = ?A @ EvReturn # ?B"
    by (simp add: worker_events_def)
  have A: "\<And>e. e \<in> set ?A \<Longrightarrow> e \<noteq> EvReturn \<and> \<not> after_query e"
    by (rule query_events_only)
  consider "k < length ?A" | "k = length ?A" | "length ?A < k"
    by linarith
  then show ?thesis
  proof cases
    case 1
    then have "worker_events lib cl q ! k \<in> set ?A" by (simp add: W nth_append)
    moreover from 1 have "set (take k (worker_events lib cl q)) \<subseteq> set ?A"
      by (auto simp: W dest: in_set_takeD)
    ultimately show ?thesis using A by blast
  next
    case 2
    then show ?thesis by (simp add: W)
  next
    case 3
    then have "EvReturn \<in> set (take k (worker_events lib cl q))"
      by (auto simp: W take_Cons')
    moreover from 3 k have "worker_events lib cl q ! k \<in> set ?B"
      by (simp add: W nth_append nth_Cons')
    then have "worker_events lib cl q ! k \<noteq> EvUnmarshal" by auto
    ultimately show ?thesis by simp
  qed
qed

lemma count_list_memD: "count_list xs x = Suc n \<Longrightarrow> x \<in> set xs"
  by (cases "x \<in> set xs") simp_all

text \<open>C4, in the form that holds of the code. In every execution a goroutine gives its
  permit back when \<open>query\<close> returns, on every path: after the network call and,
  where the body is decoded, after the decoding, which is done holding the permit;
  everything after the call of \<open>query\<close> (the two reports, the parsing by
  \<open>NewQueryResults\<close> and the send) is done without it.\<close>

theorem permit_held_until_query_returns:
  "(let s = run lib acts (NewContext client) in
    \<forall>i < length (workers s).
      (\<forall>k < length (events_of i (trace s)).
         (events_of i (trace s) ! k = EvUnmarshal \<longrightarrow>
            EvReturn \<notin> set (take k (events_of i (trace s)))) \<and>
         (after_query (events_of i (trace s) ! k) \<longrightarrow>
            EvReturn \<in> set (take k (events_of i (trace s))))) \<and>
      (returned (wpc (workers s ! i)) \<longrightarrow> EvReturn \<in> set (events_of i (trace s))) \<and>
      ((\<exists>bdy. wpc (workers s ! i) = Decoding bdy) \<longrightarrow>
         EvAcquire \<in> set (events_of i (trace s)) \<and> EvReturn \<notin> set (events_of i (trace s))))"
proof -
  define s where "s = run lib acts (NewContext client)"
  have I: "inv lib s"
    unfolding s_def by (rule inv_run) (rule inv_NewContext)
  have main: "(\<forall>k < length (events_of i (trace s)).
         (events_of i (trace s) ! k = EvUnmarshal \<longrightarrow>
            EvReturn \<notin> set (take k (events_of i (trace s)))) \<and>
         (after_query (events_of i (trace s) ! k) \<longrightarrow>
            EvReturn \<in> set (take k (events_of i (trace s))))) \<and>
      (returned (wpc (workers s ! i)) \<longrightarrow> EvReturn \<in> set (events_of i (trace s))) \<and>
      ((\<exists>bdy. wpc (workers s ! i) = Decoding bdy) \<longrightarrow>
         EvAcquire \<in> set (events_of i (trace s)) \<and> EvReturn \<notin> set (events_of i (trace s)))"
    if i: "i < length (workers s)" for i
  proof -
    let ?W = "worker_events lib (Client s) (wq (workers s ! i))"
    let ?m = "steps_taken lib (Client s) (wq (workers s ! i)) (wpc (workers s ! i))"
    have h: "events_of i (trace s) = take ?m ?W"
      by (rule history(1) [OF I i])
    note cnt = permit_counts [OF history(2) [OF I i], folded h]
    have ord: "(events_of i (trace s) ! k = EvUnmarshal \<longrightarrow>
            EvReturn \<notin> set (take k (events_of i (trace s)))) \<and>
         (after_query (events_of i (trace s) ! k) \<longrightarrow>
            EvReturn \<in> set (take k (events_of i (trace s))))"
      if k: "k < length (events_of i (trace s))" for k
    proof -
      from k have "k < length ?W" "k < ?m" by (simp_all add: h)
      then have "events_of i (trace s) ! k = ?W ! k"
        and "take k (events_of i (trace s)) = take k ?W"
        by (simp_all add: h min_def)
      with worker_events_order [OF \<open>k < length ?W\<close>] show ?thesis by simp
    qed
    have ret: "EvReturn \<in> set (events_of i (trace s))" if "returned (wpc (workers s ! i))"
      using cnt that by (auto dest: count_list_memD)
    have dec: "EvAcquire \<in> set (events_of i (trace s)) \<and> EvReturn \<notin> set (events_of i (trace s))"
      if "wpc (workers s ! i) = Decoding bdy" for bdy
      using cnt that by (auto simp: count_list_0_iff dest: count_list_memD)
    from ord ret dec show ?thesis by blast
  qed
  then show ?thesis
    unfolding s_def [symmetric] Let_def by blast
qed


theorem permit_held_until_query_returns_witness:
  "(0::nat) < length (workers run_up_done) \<and>
   (3::nat) < length (events_of 0 (trace run_up_done)) \<and>
   events_of 0 (trace run_up_done) ! 3 = EvUnmarshal \<and>
   EvReturn \<notin> set (take 3 (events_of 0 (trace run_up_done))) \<and>
   (6::nat) < length (events_of 0 (trace run_up_done)) \<and>
   after_query (events_of 0 (trace run_up_done) ! 6) \<and>
   EvReturn \<in> set (take 6 (events_of 0 (trace run_up_done))) \<and>
   returned (wpc (workers run_up_done ! 0)) \<and>
   EvReturn \<in> set (events_of 0 (trace run_up_done))"
proof -
  have ev: "events_of 0 (trace run_up_done) =
      [EvAcquire, EvDo up_request, EvResponse [''slow''], EvUnmarshal, EvReturn, EvReport None,
       EvNewQueryResults, EvReport None, EvSend [JNumber ''1'']]"
    by code_simp
  have w: "(0::nat) < length (workers run_up_done)" "returned (wpc (workers run_up_done ! 0))"
    by code_simp+
  note T = permit_held_until_query_returns [where lib = mock_lib and client = mock_client
      and acts = "Call ''up'' # replicate 9 (Sched 0)", unfolded Let_def, folded run_up_done_def,
      rule_format, OF w(1)]
  from T have "EvReturn \<in> set (events_of 0 (trace run_up_done))"
    using w(2) by blast
  moreover from T have "events_of 0 (trace run_up_done) ! 3 = EvUnmarshal \<longrightarrow>
      EvReturn \<notin> set (take 3 (events_of 0 (trace run_up_done)))"
    by (simp add: ev)
  moreover from T have "after_query (events_of 0 (trace run_up_done) ! 6) \<longrightarrow>
      EvReturn \<in> set (take 6 (events_of 0 (trace run_up_done)))"
    by (simp add: ev)
  ultimately show ?thesis
    using w by (simp add: ev)
qed

text \<open>Against C4 as the specification words it: a successful query has decoded its
  body (\<open>json.Unmarshal\<close> is its fourth statement) while the deferred
  \<open>Return\<close> has not yet run and the permit is still counted as held.\<close>

theorem decode_before_release_counterexample:
  "wpc (workers run_up_decoded ! 0) = Returning mock_json None \<and>
   events_of 0 (trace run_up_decoded) = [EvAcquire, EvDo up_request, EvResponse [''slow''], EvUnmarshal] \<and>
   EvReturn \<notin> set (events_of 0 (trace run_up_decoded)) \<and>
   held (semaphore run_up_decoded) = 1"
  by code_simp


section \<open>The channel of a goroutine\<close>

lemma wstep_rank: "wstep lib cl q p = Some (e, p') \<Longrightarrow> rank p < rank p'"
  by (cases p) (auto simp: Let_def split: sum.splits option.splits prod.splits)

lemma rank_Done: "9 \<le> rank p \<Longrightarrow> p = Done"
  by (cases p) simp_all

lemma wstep_Acquire: "wstep lib cl q p = Some (EvAcquire, p') \<Longrightarrow> p = AwaitPermit"
  by (cases p) (auto simp: Let_def split: sum.splits option.splits prod.splits)

lemma wstep_defined: "p \<noteq> Done \<Longrightarrow> \<exists>e p'. wstep lib cl q p = Some (e, p')"
  by (cases p) (auto simp: Let_def split: sum.splits option.splits prod.splits)

text \<open>A goroutine that has not ended can execute its next statement, unless it waits for
  a permit and none is free.\<close>

lemma step_enabled:
  assumes I: "inv lib s" and i: "i < length (workers s)"
    and nd: "wpc (workers s ! i) \<noteq> Done"
    and free: "wpc (workers s ! i) = AwaitPermit \<longrightarrow> held (semaphore s) < capacity (semaphore s)"
  shows "\<exists>s'. step lib i s = Some s'"
proof -
  let ?w = "workers s ! i"
  from wstep_defined [OF nd] obtain e p' where
    w: "wstep lib (Client s) (wq ?w) (wpc ?w) = Some (e, p')" by blast
  from I i have ch: "wch ?w < length (chans s)" "\<not> closed (chans s ! wch ?w)"
    by (simp_all add: inv_def)
  have "\<exists>s1. effect e ?w s = Some s1"
  proof (cases e)
    case EvAcquire
    with w have "wpc ?w = AwaitPermit" by (simp add: wstep_Acquire)
    with free EvAcquire show ?thesis by (simp add: Acquire_def)
  next
    case (EvSend v)
    with ch show ?thesis by (simp add: chan_send_def)
  qed simp_all
  with i w show ?thesis by (auto simp: step_def Let_def)
qed

lemma step_worker:
  assumes "step lib i s = Some s'"
  shows "length (workers s') = length (workers s) \<and> i < length (workers s) \<and>
         wq (workers s' ! i) = wq (workers s ! i) \<and>
         rank (wpc (workers s ! i)) < rank (wpc (workers s' ! i)) \<and>
         (\<forall>j. j \<noteq> i \<longrightarrow> workers s' ! j = workers s ! j)"
proof -
  from assms obtain e p' s1 where
    i: "i < length (workers s)" and
    w: "wstep lib (Client s) (wq (workers s ! i)) (wpc (workers s ! i)) = Some (e, p')" and
    s': "s' = s1\<lparr>workers := (workers s)[i := (workers s ! i)\<lparr>wpc := p'\<rparr>], trace := trace s @ [(i, e)]\<rparr>"
    by (rule stepD)
  from wstep_rank [OF w] i show ?thesis by (simp add: s')
qed

lemma solo_run:
  assumes "inv lib s" and "i < length (workers s)"
    and "wpc (workers s ! i) = AwaitPermit \<longrightarrow> held (semaphore s) < capacity (semaphore s)"
    and "9 \<le> rank (wpc (workers s ! i)) + k"
  shows "wpc (workers (run lib (replicate k (Sched i)) s) ! i) = Done \<and>
         wq (workers (run lib (replicate k (Sched i)) s) ! i) = wq (workers s ! i) \<and>
         length (workers (run lib (replicate k (Sched i)) s)) = length (workers s)"
  using assms
proof (induction k arbitrary: s)
  case 0
  then show ?case by (simp add: run_def rank_Done)
next
  case (Suc k)
  let ?r = "\<lambda>s. run lib (replicate k (Sched i)) s"
  show ?case
  proof (cases "wpc (workers s ! i) = Done")
    case True
    then have "step lib i s = None" by (simp add: step_def)
    then have "run lib (replicate (Suc k) (Sched i)) s = ?r s" by (simp add: run_def)
    moreover from Suc.IH [of s] Suc.prems True
    have "wpc (workers (?r s) ! i) = Done \<and> wq (workers (?r s) ! i) = wq (workers s ! i) \<and>
          length (workers (?r s)) = length (workers s)"
      by simp
    ultimately show ?thesis by (simp only:)
  next
    case False
    from step_enabled [OF Suc.prems(1,2) False Suc.prems(3)] obtain s' where
      st: "step lib i s = Some s'" by blast
    note sw = step_worker [OF st]
    have I': "inv lib s'" using Suc.prems(1) st by (rule inv_step)
    from sw have "wpc (workers s' ! i) \<noteq> AwaitPermit"
      by (cases "wpc (workers s' ! i)") simp_all
    moreover from sw Suc.prems(4) have "9 \<le> rank (wpc (workers s' ! i)) + k" by simp
    moreover from sw Suc.prems(2) have "i < length (workers s')" by simp
    ultimately have "wpc (workers (?r s') ! i) = Done \<and>
         wq (workers (?r s') ! i) = wq (workers s' ! i) \<and>
         length (workers (?r s')) = length (workers s')"
      using Suc.IH [OF I'] by simp
    moreover from st have "run lib (replicate (Suc k) (Sched i)) s = ?r s'" by (simp add: run_def)
    ultimately show ?thesis using sw by (simp only:)
  qed
qed

lemma sends_simps:
  "sends [] = []" "sends (e # evs) = send_of e @ sends evs" "sends (xs @ ys) = sends xs @ sends ys"
  by (simp_all add: sends_def)

lemma query_events_sends: "sends (query_events lib cl q) = []"
  by (simp add: query_events_def sends_def split: sum.splits option.splits)

lemma sends_history:
  assumes "pc_ok lib cl q p"
  shows "sends (take (steps_taken lib cl q p) (worker_events lib cl q)) =
           (if p = Done then [results lib cl q] else [])"
proof (cases p)
  case (InFlight req)
  with assms show ?thesis
    by (simp add: worker_events_def query_events_def sends_simps)
next
  case (Decoding b)
  with assms show ?thesis
    by (simp add: worker_events_def query_events_def sends_simps split: sum.splits)
qed (simp_all add: worker_events_def query_events_sends sends_simps,
     simp_all add: query_events_def sends_simps)

text \<open>What the channel of a goroutine holds.\<close>

lemma channel_contents:
  assumes I: "inv lib s" and i: "i < length (workers s)"
  shows "chans s ! i =
           \<lparr>delivered = (if wpc (workers s ! i) = Done
                          then [results lib (Client s) (wq (workers s ! i))] else []),
            closed = False\<rparr>"
    and "wch (workers s ! i) = i"
proof -
  from I i have "chans s ! i = \<lparr>delivered = sends (events_of i (trace s)), closed = False\<rparr>"
    and "wch (workers s ! i) = i"
    by (simp_all add: inv_def)
  then show "chans s ! i =
           \<lparr>delivered = (if wpc (workers s ! i) = Done
                          then [results lib (Client s) (wq (workers s ! i))] else []),
            closed = False\<rparr>"
    and "wch (workers s ! i) = i"
    using sends_history [OF history(2) [OF I i]] by (simp_all add: history(1) [OF I i])
qed


lemma rank_le: "rank p \<le> 9"
  by (cases p) simp_all

lemma sum_list_update_add:
  fixes f :: "'a \<Rightarrow> nat"
  shows "i < length xs \<Longrightarrow>
    sum_list (map f (xs[i := y])) + f (xs ! i) = sum_list (map f xs) + f y"
proof (induction xs arbitrary: i)
  case Nil
  then show ?case by simp
next
  case (Cons x xs)
  show ?case
  proof (cases i)
    case 0
    then show ?thesis by simp
  next
    case (Suc j)
    with Cons.prems have "j < length xs" by simp
    from Cons.IH [OF this] Suc show ?thesis by simp
  qed
qed

lemma remaining_step:
  assumes "step lib i s = Some s'"
  shows "remaining s' < remaining s"
proof -
  note sw = step_worker [OF assms]
  then have i: "i < length (workers s)" by simp
  have "workers s' = (workers s)[i := workers s' ! i]"
    using sw by (intro nth_equalityI) (auto simp: nth_list_update)
  then have "remaining s' + (9 - rank (wpc (workers s ! i))) =
             remaining s + (9 - rank (wpc (workers s' ! i)))"
    using sum_list_update_add [OF i, of "\<lambda>w. 9 - rank (wpc w)" "workers s' ! i"]
    by (simp add: remaining_def)
  moreover from sw have "rank (wpc (workers s ! i)) < rank (wpc (workers s' ! i))" by simp
  moreover have "rank (wpc (workers s' ! i)) \<le> 9" by (rule rank_le)
  ultimately show ?thesis by linarith
qed

lemma remaining_zero:
  assumes "remaining s = 0"
  shows "\<forall>w \<in> set (workers s). wpc w = Done"
proof
  fix w assume "w \<in> set (workers s)"
  with assms have "9 - rank (wpc w) = 0"
    by (auto simp: remaining_def)
  then show "wpc w = Done" by (simp add: rank_Done)
qed

lemma some_step:
  assumes I: "inv lib s" and cap: "0 < capacity (semaphore s)" and r: "0 < remaining s"
  shows "\<exists>i s'. step lib i s = Some s'"
proof (cases "\<exists>j < length (workers s). wpc (workers s ! j) \<noteq> Done \<and> wpc (workers s ! j) \<noteq> AwaitPermit")
  case True
  then obtain j where "j < length (workers s)" "wpc (workers s ! j) \<noteq> Done"
    "wpc (workers s ! j) \<noteq> AwaitPermit" by blast
  with step_enabled [OF I, of j] show ?thesis by blast
next
  case False
  then have idle: "\<forall>w \<in> set (workers s). wpc w = Done \<or> wpc w = AwaitPermit"
    by (auto simp: in_set_conv_nth)
  then have "\<forall>w \<in> set (workers s). \<not> holding (wpc w)" by auto
  then have "permits_in_use s = 0" by (simp add: permits_in_use_def)
  with I cap have free: "held (semaphore s) < capacity (semaphore s)" by (simp add: inv_def)
  have "\<exists>w \<in> set (workers s). wpc w \<noteq> Done"
  proof (rule ccontr)
    assume "\<not> (\<exists>w \<in> set (workers s). wpc w \<noteq> Done)"
    then have "map (\<lambda>w. 9 - rank (wpc w)) (workers s) = map (\<lambda>w. 0) (workers s)"
      by (intro map_cong) auto
    then have "remaining s = 0" by (simp add: remaining_def)
    with r show False by simp
  qed
  then obtain w where "w \<in> set (workers s)" "wpc w \<noteq> Done" by blast
  then obtain j where "j < length (workers s)" "wpc (workers s ! j) \<noteq> Done"
    by (auto simp: in_set_conv_nth)
  with step_enabled [OF I this(1) this(2)] free show ?thesis by blast
qed

text \<open>With a permit to give, every state can be continued, without further calls, so that
  all goroutines end.\<close>

lemma can_finish:
  assumes "inv lib s" and "0 < capacity (semaphore s)"
  shows "\<exists>acts. calls acts = [] \<and> (\<forall>w \<in> set (workers (run lib acts s)). wpc w = Done)"
  using assms
proof (induction "remaining s" arbitrary: s rule: less_induct)
  case less
  show ?case
  proof (cases "remaining s = 0")
    case True
    then have "\<forall>w \<in> set (workers (run lib [] s)). wpc w = Done"
      by (simp add: run_def remaining_zero)
    then show ?thesis by (intro exI [of _ "[]"]) simp
  next
    case False
    with some_step [OF less.prems] obtain i s' where st: "step lib i s = Some s'" by blast
    have I': "inv lib s'" using less.prems(1) st by (rule inv_step)
    have "capacity (semaphore s') = capacity (semaphore s)"
      using capacity_act [of lib "Sched i" s] st by simp
    with less.prems(2) have cap': "0 < capacity (semaphore s')" by simp
    from less.hyps [OF remaining_step [OF st] I' cap'] obtain acts where
      a: "calls acts = []" "\<forall>w \<in> set (workers (run lib acts s')). wpc w = Done" by blast
    have "run lib (Sched i # acts) s = run lib acts s'"
      using st by (simp add: run_def)
    with a show ?thesis by (intro exI [of _ "Sched i # acts"]) simp
  qed
qed

text \<open>C2, in the form that holds of the code. In every execution the goroutine started
  by \<open>Query\<close> sends on the channel that \<open>Query\<close> returned exactly one value, the parser's
  result for its own query, as its last statement: the channel holds nothing before the
  goroutine has ended and that one value afterwards, whether the query succeeded or
  failed. The goroutine never closes the channel; closing is left to the receiver. A
  goroutine that has its permit, or for which one is free, ends within nine of its own
  statements, and every execution can be continued, without further calls, so that all
  goroutines have ended and each channel holds its one value.\<close>

theorem single_send_no_close:
  "(let s = run lib acts (NewContext client) in
    (\<forall>i < length (workers s).
       wch (workers s ! i) = i \<and>
       \<not> closed (chans s ! i) \<and>
       delivered (chans s ! i) =
         (if wpc (workers s ! i) = Done then [results lib client (wq (workers s ! i))] else []) \<and>
       (wpc (workers s ! i) \<noteq> AwaitPermit \<or> held (semaphore s) < capacity (semaphore s) \<longrightarrow>
          wpc (workers (run lib (replicate 9 (Sched i)) s) ! i) = Done \<and>
          \<not> closed (chans (run lib (replicate 9 (Sched i)) s) ! i) \<and>
          delivered (chans (run lib (replicate 9 (Sched i)) s) ! i) =
            [results lib client (wq (workers s ! i))])) \<and>
    (\<exists>more. calls more = [] \<and>
       (\<forall>i < length (workers s).
          wpc (workers (run lib more s) ! i) = Done \<and>
          \<not> closed (chans (run lib more s) ! i) \<and>
          delivered (chans (run lib more s) ! i) = [results lib client (wq (workers s ! i))])))"
proof -
  define s where "s = run lib acts (NewContext client)"
  have I: "inv lib s"
    unfolding s_def by (rule inv_run) (rule inv_NewContext)
  have cl: "Client s = client"
    by (simp add: s_def Client_run NewContext_def)
  have main: "wch (workers s ! i) = i \<and>
      \<not> closed (chans s ! i) \<and>
      delivered (chans s ! i) =
        (if wpc (workers s ! i) = Done then [results lib client (wq (workers s ! i))] else []) \<and>
      (wpc (workers s ! i) \<noteq> AwaitPermit \<or> held (semaphore s) < capacity (semaphore s) \<longrightarrow>
         wpc (workers (run lib (replicate 9 (Sched i)) s) ! i) = Done \<and>
         \<not> closed (chans (run lib (replicate 9 (Sched i)) s) ! i) \<and>
         delivered (chans (run lib (replicate 9 (Sched i)) s) ! i) =
           [results lib client (wq (workers s ! i))])"
    if i: "i < length (workers s)" for i
  proof -
    let ?s2 = "run lib (replicate 9 (Sched i)) s"
    note now = channel_contents [OF I i, unfolded cl]
    have later: "wpc (workers ?s2 ! i) = Done \<and> \<not> closed (chans ?s2 ! i) \<and>
        delivered (chans ?s2 ! i) = [results lib client (wq (workers s ! i))]"
      if free: "wpc (workers s ! i) \<noteq> AwaitPermit \<or> held (semaphore s) < capacity (semaphore s)"
    proof -
      from free have "wpc (workers s ! i) = AwaitPermit \<longrightarrow> held (semaphore s) < capacity (semaphore s)"
        by blast
      from solo_run [OF I i this, of 9]
      have d: "wpc (workers ?s2 ! i) = Done" and q: "wq (workers ?s2 ! i) = wq (workers s ! i)"
        and l: "i < length (workers ?s2)"
        using i by simp_all
      have I2: "inv lib ?s2" using I by (rule inv_run)
      have "Client ?s2 = client" by (simp add: Client_run cl)
      with channel_contents(1) [OF I2 l] d q show ?thesis by simp
    qed
    from now later show ?thesis by simp
  qed
  have "capacity (semaphore s) = 20"
    by (simp add: s_def capacity_run NewContext_def NewSemaphore_def)
  with can_finish [OF I] obtain more where
    c: "calls more = []" and d: "\<forall>w \<in> set (workers (run lib more s)). wpc w = Done"
    by auto
  let ?s3 = "run lib more s"
  have I3: "inv lib ?s3" using I by (rule inv_run)
  have cl3: "Client ?s3 = client" by (simp add: Client_run cl)
  have qs: "map wq (workers ?s3) = map wq (workers s)"
    by (simp add: queries_run c)
  then have len: "length (workers ?s3) = length (workers s)"
    by (metis length_map)
  have fin: "wpc (workers ?s3 ! i) = Done \<and> \<not> closed (chans ?s3 ! i) \<and>
      delivered (chans ?s3 ! i) = [results lib client (wq (workers s ! i))]"
    if i: "i < length (workers s)" for i
  proof -
    from i len have l: "i < length (workers ?s3)" by simp
    with d have dn: "wpc (workers ?s3 ! i) = Done" by simp
    from qs l i have "wq (workers ?s3 ! i) = wq (workers s ! i)"
      by (metis nth_map)
    with channel_contents(1) [OF I3 l] dn show ?thesis by (simp add: cl3)
  qed
  from main c fin show ?thesis
    unfolding s_def [symmetric] Let_def by blast
qed

theorem single_send_no_close_witness:
  "(0::nat) < length (workers run_up_decoded) \<and>
   wpc (workers run_up_decoded ! 0) \<noteq> AwaitPermit \<and>
   delivered (chans run_up_decoded ! 0) = [] \<and>
   wpc (workers (run mock_lib (replicate 9 (Sched 0)) run_up_decoded) ! 0) = Done \<and>
   \<not> closed (chans (run mock_lib (replicate 9 (Sched 0)) run_up_decoded) ! 0) \<and>
   delivered (chans (run mock_lib (replicate 9 (Sched 0)) run_up_decoded) ! 0) = [[JNumber ''1'']]"
proof -
  have w: "(0::nat) < length (workers run_up_decoded)"
      "wpc (workers run_up_decoded ! 0) = Returning mock_json None"
      "wq (workers run_up_decoded ! 0) = ''up''"
      "results mock_lib mock_client ''up'' = [JNumber ''1'']"
    by code_simp+
  note T = single_send_no_close [where lib = mock_lib and client = mock_client
      and acts = "[Call ''up'', Sched 0, Sched 0, Sched 0, Sched 0]", unfolded Let_def,
      folded run_up_decoded_def, THEN conjunct1, rule_format, OF w(1)]
  from T show ?thesis
    using w by simp
qed

text \<open>Against C2 as the specification words it: after the goroutine of a successful
  query has sent its value and ended, the channel is still open.\<close>

theorem producer_does_not_close_counterexample:
  "wpc (workers run_up_done ! 0) = Done \<and>
   delivered (chans run_up_done ! 0) = [[JNumber ''1'']] \<and>
   closed (chans run_up_done ! 0) = False"
  by code_simp


section \<open>The errors collected\<close>

lemma reports_simps:
  "reports [] = []" "reports (e # evs) = report_of e @ reports evs"
  "reports (xs @ ys) = reports xs @ reports ys"
  by (simp_all add: reports_def)

lemma sum_list_delta:
  fixes m :: "'a multiset"
  shows "j < n \<Longrightarrow> (\<Sum>i\<leftarrow>[0..<n]. if i = j then m else {#}) = m"
  by (simp add: sum_list_distinct_conv_sum_set)

text \<open>The reports of an execution are those of its goroutines together.\<close>

lemma reports_split:
  assumes "\<forall>p \<in> set t. fst p < n"
  shows "mset (reports (map snd t)) = (\<Sum>i\<leftarrow>[0..<n]. mset (reports (events_of i t)))"
  using assms
proof (induction t)
  case Nil
  show ?case by (simp add: reports_simps events_of_def)
next
  case (Cons p t)
  obtain j e where p: "p = (j, e)" by (cases p)
  with Cons.prems have j: "j < n" by simp
  have "\<And>i. mset (reports (events_of i (p # t))) =
          (if i = j then mset (report_of e) else {#}) + mset (reports (events_of i t))"
    by (simp add: p events_of_def reports_simps)
  then have "(\<Sum>i\<leftarrow>[0..<n]. mset (reports (events_of i (p # t)))) =
        (\<Sum>i\<leftarrow>[0..<n]. if i = j then mset (report_of e) else {#}) +
        (\<Sum>i\<leftarrow>[0..<n]. mset (reports (events_of i t)))"
    by (simp add: sum_list_addf)
  also have "\<dots> = mset (report_of e) + mset (reports (map snd t))"
    using Cons by (simp add: sum_list_delta [OF j])
  finally show ?case by (simp add: p reports_simps)
qed

lemma map_by_index: "map (\<lambda>i. f (ws ! i)) [0..<length ws] = map f ws"
  by (rule nth_equalityI) simp_all

lemma query_events_reports: "reports (query_events lib cl q) = []"
  by (simp add: query_events_def reports_simps split: sum.splits option.splits)

lemma worker_events_reports: "reports (worker_events lib cl q) = query_errors lib cl q"
  by (simp add: worker_events_def query_events_reports reports_simps query_errors_def
           split: option.splits)

lemma Done_history:
  assumes I: "inv lib s" and i: "i < length (workers s)" and d: "wpc (workers s ! i) = Done"
  shows "events_of i (trace s) = worker_events lib (Client s) (wq (workers s ! i))"
  using history(1) [OF I i] by (simp add: d worker_events_def)

text \<open>Once all goroutines have ended, the collector holds the errors of every query.\<close>

lemma errors_complete:
  assumes I: "inv lib s" and d: "\<forall>w \<in> set (workers s). wpc w = Done"
  shows "mset (ErrorCollector s) = mset (concat (map (query_errors lib (Client s)) (map wq (workers s))))"
proof -
  let ?n = "length (workers s)"
  from I have "\<forall>p \<in> set (trace s). fst p < ?n" and ec: "ErrorCollector s = reports (map snd (trace s))"
    by (simp_all add: inv_def)
  then have "mset (ErrorCollector s) = (\<Sum>i\<leftarrow>[0..<?n]. mset (reports (events_of i (trace s))))"
    by (simp add: reports_split)
  also have "map (\<lambda>i. mset (reports (events_of i (trace s)))) [0..<?n] =
             map (\<lambda>i. mset (query_errors lib (Client s) (wq (workers s ! i)))) [0..<?n]"
  proof (rule map_cong [OF refl])
    fix i assume "i \<in> set [0..<?n]"
    then have i: "i < ?n" by simp
    with d have "wpc (workers s ! i) = Done" by simp
    from Done_history [OF I i this]
    show "mset (reports (events_of i (trace s))) = mset (query_errors lib (Client s) (wq (workers s ! i)))"
      by (simp add: worker_events_reports)
  qed
  also have "map (\<lambda>i. mset (query_errors lib (Client s) (wq (workers s ! i)))) [0..<?n] =
             map (\<lambda>w. mset (query_errors lib (Client s) (wq w))) (workers s)"
    by (rule map_by_index)
  finally show ?thesis by (simp add: mset_concat comp_def)
qed


lemma NewQueryResults_error_zero:
  "snd (NewQueryResults raw) \<noteq> None \<Longrightarrow> fst (NewQueryResults raw) = []"
  by (simp add: NewQueryResults_def split: json.splits option.splits)

lemma NewQueryResults_nil: "NewQueryResults JNull = ([], Some parse_error)"
  by (simp add: NewQueryResults_def)

lemma query_result_error_nil:
  "snd (query_result lib cl q) \<noteq> None \<Longrightarrow> fst (query_result lib cl q) = JNull"
  by (auto simp: query_result_def decode_def Let_def split: sum.splits option.splits)

lemma promErr_parseErr:
  "promErr lib cl q \<noteq> None \<Longrightarrow> parseErr lib cl q = Some parse_error"
  by (simp add: promErr_def parseErr_def query_result_error_nil NewQueryResults_nil)

lemma failed_results: "failed lib cl q \<Longrightarrow> results lib cl q = []"
  using promErr_parseErr [of lib cl q] NewQueryResults_error_zero [of "fst (query_result lib cl q)"]
  by (auto simp: failed_def results_def parseErr_def)

lemma query_errors_length:
  "length (query_errors lib cl q) =
     (if failed lib cl q then 1 else 0) + (if promErr lib cl q \<noteq> None then 1 else 0)"
  using promErr_parseErr [of lib cl q]
  by (auto simp: query_errors_def failed_def split: option.splits)

lemma query_errors_count:
  "length (concat (map (query_errors lib cl) qs)) =
     length (filter (failed lib cl) qs) + length (filter (\<lambda>q. promErr lib cl q \<noteq> None) qs)"
  by (induction qs) (simp_all add: query_errors_length)

text \<open>C6, in the form that holds of the code. For every batch of queries and every
  interleaving, the snapshot of the error collector taken after all goroutines have sent
  their results holds exactly the errors reported, none lost and none twice: for each query
  the error of \<open>query\<close>, if any, and the error of the parser, if any. A query
  whose backend call or decoding fails hands the nil value to the parser, which reports a
  second error; so with \<open>M\<close> failing queries of which \<open>T\<close> fail in
  \<open>query\<close>, the snapshot has \<open>M + T\<close> entries.\<close>

theorem errors_collected:
  "(let s = run lib acts ((NewContext client)\<lparr>semaphore := NewSemaphore n\<rparr>) in
    (\<forall>w \<in> set (workers s). wpc w = Done) \<longrightarrow>
      mset (Errors (ErrorCollector s)) = mset (concat (map (query_errors lib client) (calls acts))) \<and>
      length (Errors (ErrorCollector s)) =
        length (filter (failed lib client) (calls acts)) +
        length (filter (\<lambda>q. promErr lib client q \<noteq> None) (calls acts)))"
proof -
  define s where "s = run lib acts ((NewContext client)\<lparr>semaphore := NewSemaphore n\<rparr>)"
  have I: "inv lib s"
    unfolding s_def by (rule inv_run) (rule inv_fresh)
  have cl: "Client s = client"
    by (simp add: s_def Client_run NewContext_def)
  have qs: "map wq (workers s) = calls acts"
    by (simp add: s_def queries_run NewContext_def)
  have "mset (Errors (ErrorCollector s)) = mset (concat (map (query_errors lib client) (calls acts))) \<and>
      length (Errors (ErrorCollector s)) =
        length (filter (failed lib client) (calls acts)) +
        length (filter (\<lambda>q. promErr lib client q \<noteq> None) (calls acts))"
    if d: "\<forall>w \<in> set (workers s). wpc w = Done"
  proof -
    from errors_complete [OF I d]
    have m: "mset (Errors (ErrorCollector s)) = mset (concat (map (query_errors lib client) (calls acts)))"
      by (simp add: cl qs Errors_def)
    then have "length (Errors (ErrorCollector s)) = length (concat (map (query_errors lib client) (calls acts)))"
      by (rule mset_eq_length)
    with m show ?thesis by (simp only: query_errors_count simp_thms)
  qed
  then show ?thesis
    unfolding s_def [symmetric] Let_def by blast
qed

theorem errors_collected_witness:
  "map wpc (workers run_mixed) = [Done, Done, Done, Done] \<and>
   calls mixed_acts = [''up'', ''html'', ''odd'', ''q1''] \<and>
   filter (failed mock_lib mock_client) (calls mixed_acts) = [''html'', ''odd'', ''q1''] \<and>
   filter (\<lambda>q. promErr mock_lib mock_client q \<noteq> None) (calls mixed_acts) = [''html'', ''q1''] \<and>
   length (Errors (ErrorCollector run_mixed)) = 5"
proof -
  have m: "map wpc (workers run_mixed) = [Done, Done, Done, Done]"
    by code_simp
  have "\<forall>p \<in> set (map wpc (workers run_mixed)). p = Done"
    by (simp only: m) simp
  then have d: "\<forall>w \<in> set (workers run_mixed). wpc w = Done"
    by simp
  have c: "calls mixed_acts = [''up'', ''html'', ''odd'', ''q1'']"
    by code_simp
  have f: "filter (failed mock_lib mock_client) (calls mixed_acts) = [''html'', ''odd'', ''q1'']"
      "filter (\<lambda>q. promErr mock_lib mock_client q \<noteq> None) (calls mixed_acts) = [''html'', ''q1'']"
    by code_simp+
  note T = errors_collected [where lib = mock_lib and client = mock_client and n = 2
      and acts = mixed_acts, unfolded Let_def, folded run_mixed_def, THEN mp, OF d]
  from T have "length (Errors (ErrorCollector run_mixed)) = 5"
    by (simp only: f) simp
  with m c f show ?thesis by (simp only: simp_thms)
qed

text \<open>Against C6 as the specification words it, in its own scenario: with capacity 1
  and two queries answered by status 500 both queries fail, and the snapshot has four
  entries, the transport error and the parser's error of each.\<close>

theorem errors_twice_counterexample:
  "map wpc (workers run_500) = [Done, Done] \<and>
   failed mock_lib mock_client ''q1'' \<and> failed mock_lib mock_client ''q2'' \<and>
   Errors (ErrorCollector run_500) =
     [''500 Error server error fetching query q1'', parse_error,
      ''500 Error server error fetching query q2'', parse_error] \<and>
   length (Errors (ErrorCollector run_500)) \<noteq> 2"
  by code_simp


section \<open>Errors go to the collector, results to the channels\<close>

lemma reports_sublist: "set (reports (events_of i t)) \<subseteq> set (reports (map snd t))"
  by (induction t) (auto simp: events_of_def reports_simps)

lemma step_frame:
  assumes I: "inv lib s" and st: "step lib j s = Some s'" and i: "i < length (workers s)"
    and ne: "i \<noteq> j"
  shows "workers s' ! i = workers s ! i \<and> chans s' ! i = chans s ! i"
proof -
  from st obtain e p' s1 where
    j: "j < length (workers s)" and
    ef: "effect e (workers s ! j) s = Some s1" and
    s': "s' = s1\<lparr>workers := (workers s)[j := (workers s ! j)\<lparr>wpc := p'\<rparr>], trace := trace s @ [(j, e)]\<rparr>"
    by (rule stepD)
  from I j i have "wch (workers s ! j) = j" "i < length (chans s)"
    by (simp_all add: inv_def)
  with effect_chans [OF ef, of i] ne have "chans s1 ! i = chans s ! i" by simp
  with ne show ?thesis by (simp add: s')
qed

lemma QueryAll_frame: "ErrorCollector (snd (QueryAll qs s)) = ErrorCollector s"
  by (simp add: QueryAll_def QueryAll_loop_state)

section \<open>Transport errors\<close>

lemma returned_history:
  assumes "returned p"
  shows "take (steps_taken lib cl q p) (worker_events lib cl q) =
           query_events lib cl q @
           take (steps_taken lib cl q p - length (query_events lib cl q))
             [EvReturn, EvReport (promErr lib cl q), EvNewQueryResults,
              EvReport (parseErr lib cl q), EvSend (results lib cl q)]"
  using assms by (cases p) (simp_all add: worker_events_def)

lemma history_prefix:
  assumes "inv lib s" and "i < length (workers s)"
  shows "set (events_of i (trace s)) \<subseteq> set (worker_events lib (Client s) (wq (workers s ! i)))"
  using history(1) [OF assms] by (auto dest: in_set_takeD)

text \<open>C8, in the form that holds of the code. Whether a backend response is treated as
  a transport error is decided by the error that \<open>Client.Do\<close> returns and by
  nothing else. If that error is not nil, \<open>query\<close> returns it (with the status
  code when there is a response) without decoding the body, and it reaches the collector. If
  it is nil, the body is decoded and the result of the decoding is what \<open>query\<close>
  returns, whatever the status code.\<close>

theorem transport_error_iff_Do_error:
  "(let s = run lib acts (NewContext client) in
    \<forall>i < length (workers s). \<forall>req.
      query_request lib client (wq (workers s ! i)) = Inr req \<longrightarrow>
      (\<forall>e. do_err (client_Do client req) = Some e \<longrightarrow>
         EvUnmarshal \<notin> set (events_of i (trace s)) \<and>
         query_result lib client (wq (workers s ! i)) =
           (JNull, Some (do_error (wq (workers s ! i)) (do_resp (client_Do client req)) e)) \<and>
         (wpc (workers s ! i) = Done \<longrightarrow>
            do_error (wq (workers s ! i)) (do_resp (client_Do client req)) e
              \<in> set (Errors (ErrorCollector s)))) \<and>
      (do_err (client_Do client req) = None \<longrightarrow>
         query_result lib client (wq (workers s ! i)) =
           decode lib (wq (workers s ! i)) (do_body (client_Do client req)) \<and>
         (returned (wpc (workers s ! i)) \<longrightarrow> EvUnmarshal \<in> set (events_of i (trace s)))))"
proof -
  define s where "s = run lib acts (NewContext client)"
  have I: "inv lib s"
    unfolding s_def by (rule inv_run) (rule inv_NewContext)
  have cl: "Client s = client"
    by (simp add: s_def Client_run NewContext_def)
  have main: "(\<forall>e. do_err (client_Do client req) = Some e \<longrightarrow>
         EvUnmarshal \<notin> set (events_of i (trace s)) \<and>
         query_result lib client (wq (workers s ! i)) =
           (JNull, Some (do_error (wq (workers s ! i)) (do_resp (client_Do client req)) e)) \<and>
         (wpc (workers s ! i) = Done \<longrightarrow>
            do_error (wq (workers s ! i)) (do_resp (client_Do client req)) e
              \<in> set (Errors (ErrorCollector s)))) \<and>
      (do_err (client_Do client req) = None \<longrightarrow>
         query_result lib client (wq (workers s ! i)) =
           decode lib (wq (workers s ! i)) (do_body (client_Do client req)) \<and>
         (returned (wpc (workers s ! i)) \<longrightarrow> EvUnmarshal \<in> set (events_of i (trace s))))"
    if i: "i < length (workers s)" and rq: "query_request lib client (wq (workers s ! i)) = Inr req"
    for i req
  proof -
    let ?q = "wq (workers s ! i)"
    let ?r = "client_Do client req"
    note h = history(1) [OF I i, unfolded cl]
    have bad: "EvUnmarshal \<notin> set (events_of i (trace s)) \<and>
         query_result lib client ?q = (JNull, Some (do_error ?q (do_resp ?r) e)) \<and>
         (wpc (workers s ! i) = Done \<longrightarrow> do_error ?q (do_resp ?r) e \<in> set (Errors (ErrorCollector s)))"
      if e: "do_err ?r = Some e" for e
    proof -
      from rq e have "EvUnmarshal \<notin> set (worker_events lib client ?q)"
        by (simp add: worker_events_def query_events_def)
      with history_prefix [OF I i] have a: "EvUnmarshal \<notin> set (events_of i (trace s))"
        by (auto simp: cl)
      from rq e have b: "query_result lib client ?q = (JNull, Some (do_error ?q (do_resp ?r) e))"
        by (simp add: query_result_def)
      have c: "do_error ?q (do_resp ?r) e \<in> set (Errors (ErrorCollector s))"
        if d: "wpc (workers s ! i) = Done"
      proof -
        from I have "ErrorCollector s = reports (map snd (trace s))"
          by (simp add: inv_def)
        with reports_sublist [of i "trace s"] Done_history [OF I i d]
        have "set (query_errors lib client ?q) \<subseteq> set (Errors (ErrorCollector s))"
          by (simp add: worker_events_reports cl Errors_def)
        moreover from b have "do_error ?q (do_resp ?r) e \<in> set (query_errors lib client ?q)"
          by (simp add: query_errors_def promErr_def)
        ultimately show ?thesis by blast
      qed
      from a b c show ?thesis by blast
    qed
    have good: "query_result lib client ?q = decode lib ?q (do_body ?r) \<and>
         (returned (wpc (workers s ! i)) \<longrightarrow> EvUnmarshal \<in> set (events_of i (trace s)))"
      if e: "do_err ?r = None"
    proof -
      from rq e have "EvUnmarshal \<in> set (query_events lib client ?q)"
        by (simp add: query_events_def)
      then have "EvUnmarshal \<in> set (events_of i (trace s))" if "returned (wpc (workers s ! i))"
        using returned_history [OF that, of lib client ?q] by (simp add: h)
      moreover from rq e have "query_result lib client ?q = decode lib ?q (do_body ?r)"
        by (simp add: query_result_def)
      ultimately show ?thesis by blast
    qed
    from bad good show ?thesis by blast
  qed
  then show ?thesis
    unfolding s_def [symmetric] Let_def by blast
qed

theorem transport_error_iff_Do_error_witness:
  "(0::nat) < length (workers run_q1) \<and>
   query_request mock_lib mock_client (wq (workers run_q1 ! 0)) = Inr q1_request \<and>
   do_err (client_Do mock_client q1_request) = Some ''server error'' \<and>
   wpc (workers run_q1 ! 0) = Done \<and>
   EvUnmarshal \<notin> set (events_of 0 (trace run_q1)) \<and>
   ''500 Error server error fetching query q1'' \<in> set (Errors (ErrorCollector run_q1))"
proof -
  have w: "(0::nat) < length (workers run_q1)"
      "query_request mock_lib mock_client (wq (workers run_q1 ! 0)) = Inr q1_request"
      "do_err (client_Do mock_client q1_request) = Some ''server error''"
      "wpc (workers run_q1 ! 0) = Done"
      "do_error (wq (workers run_q1 ! 0)) (do_resp (client_Do mock_client q1_request)) ''server error'' =
         ''500 Error server error fetching query q1''"
    by code_simp+
  note T = transport_error_iff_Do_error [where lib = mock_lib and client = mock_client
      and acts = "Call ''q1'' # replicate 9 (Sched 0)", unfolded Let_def, folded run_q1_def,
      rule_format, OF w(1) w(2), THEN conjunct1, rule_format, OF w(3)]
  from T have "EvUnmarshal \<notin> set (events_of 0 (trace run_q1))"
    and "do_error (wq (workers run_q1 ! 0)) (do_resp (client_Do mock_client q1_request)) ''server error''
           \<in> set (Errors (ErrorCollector run_q1))"
    using w(4) by blast+
  with w show ?thesis by (simp only: simp_thms)
qed

text \<open>Against C8 as the specification words it: a response with status 500 that
  \<open>Client.Do\<close> returns without an error is decoded as a success payload, and
  nothing reaches the collector.\<close>

theorem status_500_decoded_counterexample:
  "query_request mock_lib mock_client ''teapot'' = Inr teapot_request \<and>
   do_resp (client_Do mock_client teapot_request) = Some \<lparr>StatusCode = 500\<rparr> \<and>
   query_result mock_lib mock_client ''teapot'' = (mock_json, None) \<and>
   events_of 0 (trace run_teapot) =
     [EvAcquire, EvDo teapot_request, EvResponse [], EvUnmarshal, EvReturn, EvReport None,
      EvNewQueryResults, EvReport None, EvSend [JNumber ''1'']] \<and>
   Errors (ErrorCollector run_teapot) = []"
  by code_simp


section \<open>The request\<close>















lemma query_events_Do:
  "filter is_Do (query_events lib cl q) =
     (case query_request lib cl q of Inl e \<Rightarrow> [] | Inr req \<Rightarrow> [EvDo req])"
  by (simp add: query_events_def split: sum.splits option.splits)

lemma worker_events_Do:
  "filter is_Do (worker_events lib cl q) =
     (case query_request lib cl q of Inl e \<Rightarrow> [] | Inr req \<Rightarrow> [EvDo req])"
  by (simp add: worker_events_def query_events_Do)


section \<open>The values on the channels of \<open>QueryAll\<close>\<close>

lemma run_append: "run lib (xs @ ys) s = run lib ys (run lib xs s)"
  by (simp add: run_def)

lemma QueryAll_loop_as_run: "snd (QueryAll_loop qs acc s) = run lib (map Call qs) s"
proof (induction qs arbitrary: acc s)
  case Nil
  show ?case by (simp add: run_def)
next
  case (Cons q qs)
  have "snd (QueryAll_loop (q # qs) acc s) =
        snd (QueryAll_loop qs (append_slice acc (fst (Query q s))) (snd (Query q s)))"
    by (simp add: split_beta)
  also have "\<dots> = run lib (map Call qs) (snd (Query q s))"
    by (rule Cons.IH)
  finally show ?case by (simp add: run_def)
qed

lemma calls_Call: "calls (map Call qs) = qs"
  by (induction qs) simp_all

text \<open>The value that arrives on the \<open>i\<close>-th channel of \<open>QueryAll\<close> is that of the \<open>i\<close>-th
  query, however the goroutines are scheduled before and after the call.\<close>

lemma QueryAll_eventual:
  assumes i: "i < length queries"
    and d: "wpc (workers (run lib post (snd (QueryAll queries (run lib pre (NewContext client))))) !
              (length (workers (run lib pre (NewContext client))) + i)) = Done"
  shows "delivered (chans (run lib post (snd (QueryAll queries (run lib pre (NewContext client))))) !
           (elems (fst (QueryAll queries (run lib pre (NewContext client)))) ! i)) =
         [results lib client (queries ! i)]"
proof -
  define s0 where "s0 = run lib pre (NewContext client)"
  define s2 where "s2 = run lib post (snd (QueryAll queries s0))"
  let ?n = "length (workers s0)"
  have I0: "inv lib s0"
    unfolding s0_def by (rule inv_run) (rule inv_NewContext)
  have s2: "s2 = run lib (pre @ map Call queries @ post) (NewContext client)"
    by (simp add: s2_def s0_def QueryAll_def QueryAll_loop_as_run [where lib = lib] run_append)
  then have I2: "inv lib s2"
    by (simp add: inv_run inv_NewContext)
  have cl: "Client s2 = client"
    by (simp add: s2 Client_run NewContext_def)
  have "map wq (workers s0) = calls pre"
    by (simp add: s0_def queries_run NewContext_def)
  then have n: "length (calls pre) = ?n"
    by (metis length_map)
  have qs: "map wq (workers s2) = calls pre @ queries @ calls post"
    by (simp add: s2 queries_run NewContext_def calls_append calls_Call)
  then have "length (workers s2) = ?n + length queries + length (calls post)"
    using n by (metis length_append length_map add.assoc)
  with i have l: "?n + i < length (workers s2)" by simp
  from qs have "map wq (workers s2) ! (?n + i) = (calls pre @ queries @ calls post) ! (?n + i)"
    by simp
  with l i n have q: "wq (workers s2 ! (?n + i)) = queries ! i"
    by (simp add: nth_append)
  from I0 have "length (chans s0) = ?n" by (simp add: inv_def)
  with i have ch: "elems (fst (QueryAll queries s0)) ! i = ?n + i"
    by (simp add: QueryAll_def QueryAll_loop_chans)
  from d have "wpc (workers s2 ! (?n + i)) = Done"
    by (simp add: s2_def s0_def)
  with channel_contents(1) [OF I2 l] have "delivered (chans s2 ! (?n + i)) = [results lib client (queries ! i)]"
    by (simp add: cl q)
  then show ?thesis
    by (simp add: ch [unfolded s0_def] s2_def s0_def)
qed


text \<open>C1. For every sequence of queries, \<open>QueryAll\<close> returns exactly as
  many channels as there are queries, and its \<open>i\<close>-th channel is the one
  returned by the call of \<open>Query\<close> on the \<open>i\<close>-th query, made after
  the calls for the queries before it; the goroutine started by that call holds the
  \<open>i\<close>-th query and that channel. In an execution of a \<open>Context\<close>,
  whatever ran before the call and however the goroutines are scheduled after it, the value
  that arrives on the \<open>i\<close>-th channel is the result for the \<open>i\<close>-th
  query.\<close>

theorem QueryAll_order_preserving:
  "len (fst (QueryAll queries s)) = length queries \<and>
   (\<forall>i < length queries.
      elems (fst (QueryAll queries s)) ! i =
        fst (Query (queries ! i) (snd (QueryAll (take i queries) s))) \<and>
      workers (snd (QueryAll queries s)) ! (length (workers s) + i) =
        \<lparr>wq = queries ! i, wch = elems (fst (QueryAll queries s)) ! i, wpc = AwaitPermit\<rparr> \<and>
      (s = run lib pre (NewContext client) \<and>
       wpc (workers (run lib post (snd (QueryAll queries s))) ! (length (workers s) + i)) = Done \<longrightarrow>
         delivered (chans (run lib post (snd (QueryAll queries s))) !
                      (elems (fst (QueryAll queries s)) ! i)) =
           [results lib client (queries ! i)]))"
proof (intro conjI allI impI)
  show "len (fst (QueryAll queries s)) = length queries"
    by (simp add: QueryAll_def len_def QueryAll_loop_chans)
next
  fix i assume i: "i < length queries"
  show "elems (fst (QueryAll queries s)) ! i =
        fst (Query (queries ! i) (snd (QueryAll (take i queries) s)))"
    using i by (simp add: Query_fst QueryAll_def QueryAll_loop_chans QueryAll_loop_state min_def)
  show "workers (snd (QueryAll queries s)) ! (length (workers s) + i) =
        \<lparr>wq = queries ! i, wch = elems (fst (QueryAll queries s)) ! i, wpc = AwaitPermit\<rparr>"
    using i by (simp add: QueryAll_def QueryAll_loop_chans QueryAll_loop_state spawned_def)
  assume "s = run lib pre (NewContext client) \<and>
       wpc (workers (run lib post (snd (QueryAll queries s))) ! (length (workers s) + i)) = Done"
  then show "delivered (chans (run lib post (snd (QueryAll queries s))) !
                      (elems (fst (QueryAll queries s)) ! i)) =
           [results lib client (queries ! i)]"
    using QueryAll_eventual [OF i, of lib post pre client] by blast
qed

theorem QueryAll_order_preserving_witness:
  "len (fst (QueryAll [''q1'', ''up'', ''odd''] (NewContext mock_client))) = 3 \<and>
   (1::nat) < length [''q1'', ''up'', ''odd''] \<and>
   elems (fst (QueryAll [''q1'', ''up'', ''odd''] (NewContext mock_client))) ! 1 =
     fst (Query ''up'' (snd (QueryAll [''q1''] (NewContext mock_client)))) \<and>
   workers (snd (QueryAll [''q1'', ''up'', ''odd''] (NewContext mock_client))) ! 1 =
     \<lparr>wq = ''up'', wch = 1, wpc = AwaitPermit\<rparr> \<and>
   NewContext mock_client = run mock_lib [] (NewContext mock_client) \<and>
   wpc (workers (run mock_lib (replicate 9 (Sched 1))
          (snd (QueryAll [''q1'', ''up'', ''odd''] (NewContext mock_client)))) ! 1) = Done \<and>
   delivered (chans (run mock_lib (replicate 9 (Sched 1))
          (snd (QueryAll [''q1'', ''up'', ''odd''] (NewContext mock_client)))) ! 1) = [[JNumber ''1'']]"
proof -
  let ?qs = "[''q1'', ''up'', ''odd'']"
  let ?s = "NewContext mock_client"
  have i: "(1::nat) < length ?qs" by simp
  have r: "?s = run mock_lib [] ?s" by (simp add: run_def)
  have w: "length ?qs = 3"
      "wpc (workers (run mock_lib (replicate 9 (Sched 1)) (snd (QueryAll ?qs ?s))) ! 1) = Done"
      "results mock_lib mock_client ''up'' = [JNumber ''1'']"
      "elems (fst (QueryAll ?qs ?s)) ! 1 = 1"
      "length (workers ?s) = 0"
      "len (fst (QueryAll ?qs ?s)) = 3"
      "fst (Query ''up'' (snd (QueryAll [''q1''] ?s))) = 1"
    by code_simp+
  note T = QueryAll_order_preserving [where queries = ?qs and s = ?s and lib = mock_lib
      and pre = "[]" and client = mock_client and post = "replicate 9 (Sched 1)",
      THEN conjunct2, rule_format, OF i]
  from T have a: "workers (snd (QueryAll ?qs ?s)) ! (length (workers ?s) + 1) =
      \<lparr>wq = ?qs ! 1, wch = elems (fst (QueryAll ?qs ?s)) ! 1, wpc = AwaitPermit\<rparr>"
    by blast
  have "wpc (workers (run mock_lib (replicate 9 (Sched 1)) (snd (QueryAll ?qs ?s))) !
          (length (workers ?s) + 1)) = Done"
    using w(2) by (simp only: w(5) add_0)
  with r have hyp: "?s = run mock_lib [] ?s \<and>
      wpc (workers (run mock_lib (replicate 9 (Sched 1)) (snd (QueryAll ?qs ?s))) !
          (length (workers ?s) + 1)) = Done"
    by (rule conjI)
  note b = T [THEN conjunct2, THEN conjunct2, THEN mp, OF hyp]
  from a [unfolded w(4) w(5)]
  have a': "workers (snd (QueryAll ?qs ?s)) ! 1 = \<lparr>wq = ''up'', wch = 1, wpc = AwaitPermit\<rparr>"
    by simp
  from b [unfolded w(4)]
  have b': "delivered (chans (run mock_lib (replicate 9 (Sched 1))
      (snd (QueryAll ?qs ?s))) ! 1) = [[JNumber ''1'']]"
    by (simp add: w(3))
  from i r w a' b' show ?thesis by (simp only: simp_thms)
qed

section \<open>Every path through \<open>query\<close> gives the permit back\<close>

lemma returned_iff_rank: "returned p \<longleftrightarrow> 5 \<le> rank p"
  by (cases p) simp_all

text \<open>A goroutine that is not kept waiting for a permit advances by one statement each
  time it is scheduled, until it has ended.\<close>

lemma solo_steps:
  assumes "inv lib s" and "i < length (workers s)"
    and "wpc (workers s ! i) = AwaitPermit \<longrightarrow> held (semaphore s) < capacity (semaphore s)"
  shows "min 9 (rank (wpc (workers s ! i)) + k)
           \<le> rank (wpc (workers (run lib (replicate k (Sched i)) s) ! i)) \<and>
         length (workers (run lib (replicate k (Sched i)) s)) = length (workers s)"
  using assms
proof (induction k arbitrary: s)
  case 0
  then show ?case by (simp add: run_def)
next
  case (Suc k)
  let ?r = "\<lambda>s. run lib (replicate k (Sched i)) s"
  show ?case
  proof (cases "wpc (workers s ! i) = Done")
    case True
    then have "step lib i s = None" by (simp add: step_def)
    then have "run lib (replicate (Suc k) (Sched i)) s = ?r s" by (simp add: run_def)
    moreover from Suc.IH [of s] Suc.prems True
    have "min 9 (9 + k) \<le> rank (wpc (workers (?r s) ! i)) \<and>
          length (workers (?r s)) = length (workers s)"
      by simp
    ultimately show ?thesis using True by simp
  next
    case False
    from step_enabled [OF Suc.prems(1,2) False Suc.prems(3)] obtain s' where
      st: "step lib i s = Some s'" by blast
    note sw = step_worker [OF st]
    have I': "inv lib s'" using Suc.prems(1) st by (rule inv_step)
    from sw have "wpc (workers s' ! i) \<noteq> AwaitPermit"
      by (cases "wpc (workers s' ! i)") simp_all
    moreover from sw Suc.prems(2) have "i < length (workers s')" by simp
    ultimately have "min 9 (rank (wpc (workers s' ! i)) + k) \<le> rank (wpc (workers (?r s') ! i)) \<and>
         length (workers (?r s')) = length (workers s')"
      using Suc.IH [OF I'] by simp
    moreover from st have "run lib (replicate (Suc k) (Sched i)) s = ?r s'" by (simp add: run_def)
    moreover have "min 9 (rank (wpc (workers s ! i)) + Suc k)
        \<le> min 9 (rank (wpc (workers s' ! i)) + k)"
    proof -
      from sw have "rank (wpc (workers s ! i)) < rank (wpc (workers s' ! i))" by blast
      then show ?thesis by linarith
    qed
    ultimately show ?thesis using sw by (simp only:) linarith
  qed
qed

text \<open>The statements of a goroutine up to the return of \<open>query\<close>, on each of its paths.\<close>

lemma returned_prefix:
  assumes I: "inv lib s" and i: "i < length (workers s)" and r: "returned (wpc (workers s ! i))"
  shows "case query_request lib (Client s) (wq (workers s ! i)) of
           Inl e \<Rightarrow> take 3 (events_of i (trace s)) = [EvAcquire, EvNewRequestFailed, EvReturn]
         | Inr req \<Rightarrow>
             (case do_err (client_Do (Client s) req) of
                Some e \<Rightarrow>
                  take 4 (events_of i (trace s)) =
                    [EvAcquire, EvDo req, EvResponse (do_warnings (client_Do (Client s) req)), EvReturn]
              | None \<Rightarrow>
                  take 5 (events_of i (trace s)) =
                    [EvAcquire, EvDo req, EvResponse (do_warnings (client_Do (Client s) req)),
                     EvUnmarshal, EvReturn])"
proof -
  let ?q = "wq (workers s ! i)"
  let ?A = "query_events lib (Client s) ?q"
  from returned_history [OF r, of lib "Client s" ?q] history(1) [OF I i]
  have h: "events_of i (trace s) =
      ?A @ take (steps_taken lib (Client s) ?q (wpc (workers s ! i)) - length ?A)
             [EvReturn, EvReport (promErr lib (Client s) ?q), EvNewQueryResults,
              EvReport (parseErr lib (Client s) ?q), EvSend (results lib (Client s) ?q)]"
    by simp
  from r have "1 \<le> steps_taken lib (Client s) ?q (wpc (workers s ! i)) - length ?A"
    by (cases "wpc (workers s ! i)") simp_all
  then obtain m where m: "steps_taken lib (Client s) ?q (wpc (workers s ! i)) - length ?A = Suc m"
    by (metis Suc_le_D One_nat_def)
  from h have "events_of i (trace s) = ?A @ EvReturn #
      take m [EvReport (promErr lib (Client s) ?q), EvNewQueryResults,
              EvReport (parseErr lib (Client s) ?q), EvSend (results lib (Client s) ?q)]"
    by (simp add: m)
  then show ?thesis
    by (simp add: query_events_def split: sum.splits option.splits)
qed


lemma permit_history:
  assumes I: "inv lib s" and i: "i < length (workers s)"
  shows "count_list (events_of i (trace s)) EvAcquire =
           (if wpc (workers s ! i) = AwaitPermit then 0 else 1) \<and>
         count_list (events_of i (trace s)) EvReturn =
           (if returned (wpc (workers s ! i)) then 1 else 0)"
  using permit_counts [OF history(2) [OF I i]] by (simp add: history(1) [OF I i])

lemma returned_not_waiting: "returned p \<Longrightarrow> p \<noteq> AwaitPermit"
  by (cases p) simp_all

lemma all_Done_no_permits:
  assumes "\<forall>w \<in> set (workers s). wpc w = Done"
  shows "permits_in_use s = 0"
proof -
  from assms have "\<forall>w \<in> set (workers s). \<not> holding (wpc w)" by simp
  then show ?thesis by (simp add: permits_in_use_def)
qed

text \<open>C5. In every execution, on whichever path a goroutine runs through
  \<open>query\<close> (request construction fails, the transport fails, decoding fails, or
  all succeed), it takes a permit once on entry and, by the time \<open>query\<close> has
  returned, has given it back exactly once itself, as the last statement of \<open>query\<close> on
  that path; the permits held are those of the goroutines inside \<open>query\<close>, and their
  number stays between 0 and the capacity. Every path does reach the return: a goroutine
  that has its permit, or for which one is free, has returned from \<open>query\<close> and given the
  permit back within five of its own statements, and with a capacity above 0 every
  execution can be continued, without further calls, until every goroutine has done so
  and no permit is held.\<close>

theorem permit_released_exactly_once:
  "(let s = run lib acts ((NewContext client)\<lparr>semaphore := NewSemaphore n\<rparr>) in
    capacity (semaphore s) = n \<and> held (semaphore s) \<le> n \<and>
    held (semaphore s) =
      length (filter (\<lambda>i. count_list (events_of i (trace s)) EvAcquire = 1 \<and>
                          count_list (events_of i (trace s)) EvReturn = 0)
                [0..<length (workers s)]) \<and>
    (\<forall>i < length (workers s).
       count_list (events_of i (trace s)) EvAcquire =
         (if wpc (workers s ! i) = AwaitPermit then 0 else 1) \<and>
       count_list (events_of i (trace s)) EvReturn =
         (if returned (wpc (workers s ! i)) then 1 else 0) \<and>
       (returned (wpc (workers s ! i)) \<longrightarrow>
          (case query_request lib client (wq (workers s ! i)) of
             Inl e \<Rightarrow> take 3 (events_of i (trace s)) = [EvAcquire, EvNewRequestFailed, EvReturn]
           | Inr req \<Rightarrow>
               (case do_err (client_Do client req) of
                  Some e \<Rightarrow>
                    take 4 (events_of i (trace s)) =
                      [EvAcquire, EvDo req, EvResponse (do_warnings (client_Do client req)), EvReturn]
                | None \<Rightarrow>
                    take 5 (events_of i (trace s)) =
                      [EvAcquire, EvDo req, EvResponse (do_warnings (client_Do client req)),
                       EvUnmarshal, EvReturn]))) \<and>
       (wpc (workers s ! i) \<noteq> AwaitPermit \<or> held (semaphore s) < n \<longrightarrow>
          returned (wpc (workers (run lib (replicate 5 (Sched i)) s) ! i)) \<and>
          count_list (events_of i (trace (run lib (replicate 5 (Sched i)) s))) EvAcquire = 1 \<and>
          count_list (events_of i (trace (run lib (replicate 5 (Sched i)) s))) EvReturn = 1)) \<and>
    (0 < n \<longrightarrow>
       (\<exists>more. calls more = [] \<and> held (semaphore (run lib more s)) = 0 \<and>
          (\<forall>i < length (workers s).
             returned (wpc (workers (run lib more s) ! i)) \<and>
             count_list (events_of i (trace (run lib more s))) EvAcquire = 1 \<and>
             count_list (events_of i (trace (run lib more s))) EvReturn = 1))))"
proof -
  define s where "s = run lib acts ((NewContext client)\<lparr>semaphore := NewSemaphore n\<rparr>)"
  have I: "inv lib s"
    unfolding s_def by (rule inv_run) (rule inv_fresh)
  have cl: "Client s = client"
    by (simp add: s_def Client_run NewContext_def)
  have cap: "capacity (semaphore s) = n"
    by (simp add: s_def capacity_run NewSemaphore_def)
  from I have le: "held (semaphore s) \<le> n" and h: "held (semaphore s) = permits_in_use s"
    using cap by (simp_all add: inv_def)
  note cnt = permit_history [OF I]
  have "filter (\<lambda>i. holding (wpc (workers s ! i))) [0..<length (workers s)] =
        filter (\<lambda>i. count_list (events_of i (trace s)) EvAcquire = 1 \<and>
                     count_list (events_of i (trace s)) EvReturn = 0) [0..<length (workers s)]"
    by (rule filter_cong) (auto simp: cnt holding_iff)
  then have hd: "held (semaphore s) =
      length (filter (\<lambda>i. count_list (events_of i (trace s)) EvAcquire = 1 \<and>
                          count_list (events_of i (trace s)) EvReturn = 0)
                [0..<length (workers s)])"
    using filter_by_index [of "\<lambda>w. holding (wpc w)" "workers s"]
    by (simp add: h permits_in_use_def)
  have path: "case query_request lib client (wq (workers s ! i)) of
             Inl e \<Rightarrow> take 3 (events_of i (trace s)) = [EvAcquire, EvNewRequestFailed, EvReturn]
           | Inr req \<Rightarrow>
               (case do_err (client_Do client req) of
                  Some e \<Rightarrow>
                    take 4 (events_of i (trace s)) =
                      [EvAcquire, EvDo req, EvResponse (do_warnings (client_Do client req)), EvReturn]
                | None \<Rightarrow>
                    take 5 (events_of i (trace s)) =
                      [EvAcquire, EvDo req, EvResponse (do_warnings (client_Do client req)),
                       EvUnmarshal, EvReturn])"
    if "i < length (workers s)" "returned (wpc (workers s ! i))" for i
    by (rule returned_prefix [OF I that, unfolded cl])
  have solo: "returned (wpc (workers (run lib (replicate 5 (Sched i)) s) ! i)) \<and>
      count_list (events_of i (trace (run lib (replicate 5 (Sched i)) s))) EvAcquire = 1 \<and>
      count_list (events_of i (trace (run lib (replicate 5 (Sched i)) s))) EvReturn = 1"
    if i: "i < length (workers s)"
      and free: "wpc (workers s ! i) \<noteq> AwaitPermit \<or> held (semaphore s) < n" for i
  proof -
    let ?s2 = "run lib (replicate 5 (Sched i)) s"
    from free cap have "wpc (workers s ! i) = AwaitPermit \<longrightarrow> held (semaphore s) < capacity (semaphore s)"
      by auto
    note ss = solo_steps [OF I i this, of 5]
    from ss have r: "5 \<le> rank (wpc (workers ?s2 ! i))" by linarith
    from ss i have l: "i < length (workers ?s2)" by simp
    from r have ret: "returned (wpc (workers ?s2 ! i))" by (simp add: returned_iff_rank)
    have I2: "inv lib ?s2" using I by (rule inv_run)
    from permit_history [OF I2 l] ret returned_not_waiting [OF ret] show ?thesis by simp
  qed
  have fin: "\<exists>more. calls more = [] \<and> held (semaphore (run lib more s)) = 0 \<and>
          (\<forall>i < length (workers s).
             returned (wpc (workers (run lib more s) ! i)) \<and>
             count_list (events_of i (trace (run lib more s))) EvAcquire = 1 \<and>
             count_list (events_of i (trace (run lib more s))) EvReturn = 1)"
    if n: "0 < n"
  proof -
    from can_finish [OF I] n cap obtain more where
      c: "calls more = []" and d: "\<forall>w \<in> set (workers (run lib more s)). wpc w = Done"
      by auto
    let ?s3 = "run lib more s"
    have I3: "inv lib ?s3" using I by (rule inv_run)
    have "map wq (workers ?s3) = map wq (workers s)"
      by (simp add: queries_run c)
    then have len: "length (workers ?s3) = length (workers s)"
      by (metis length_map)
    from I3 all_Done_no_permits [OF d] have z: "held (semaphore ?s3) = 0"
      by (simp add: inv_def)
    have "returned (wpc (workers ?s3 ! i)) \<and>
          count_list (events_of i (trace ?s3)) EvAcquire = 1 \<and>
          count_list (events_of i (trace ?s3)) EvReturn = 1"
      if "i < length (workers s)" for i
    proof -
      from that len have l: "i < length (workers ?s3)" by simp
      with d have "wpc (workers ?s3 ! i) = Done" by simp
      with permit_history [OF I3 l] show ?thesis by simp
    qed
    with c z show ?thesis by blast
  qed
  from cap le hd cnt path solo fin show ?thesis
    unfolding s_def [symmetric] Let_def by blast
qed


theorem permit_released_exactly_once_witness:
  "map wpc (workers run_mixed) = [Done, Done, Done, Done] \<and>
   take 5 (events_of 0 (trace run_mixed)) =
     [EvAcquire, EvDo up_request, EvResponse [''slow''], EvUnmarshal, EvReturn] \<and>
   take 5 (events_of 1 (trace run_mixed)) =
     [EvAcquire, EvDo html_request, EvResponse [], EvUnmarshal, EvReturn] \<and>
   promErr mock_lib mock_client ''html'' = Some ''Error invalid character fetching query html'' \<and>
   take 4 (events_of 3 (trace run_mixed)) = [EvAcquire, EvDo q1_request, EvResponse [], EvReturn] \<and>
   take 3 (events_of 0 (trace run_badhost)) = [EvAcquire, EvNewRequestFailed, EvReturn] \<and>
   count_list (events_of 0 (trace run_mixed)) EvAcquire = 1 \<and>
   count_list (events_of 0 (trace run_mixed)) EvReturn = 1 \<and>
   count_list (events_of 1 (trace run_mixed)) EvAcquire = 1 \<and>
   count_list (events_of 1 (trace run_mixed)) EvReturn = 1 \<and>
   count_list (events_of 3 (trace run_mixed)) EvAcquire = 1 \<and>
   count_list (events_of 3 (trace run_mixed)) EvReturn = 1 \<and>
   count_list (events_of 0 (trace run_badhost)) EvAcquire = 1 \<and>
   count_list (events_of 0 (trace run_badhost)) EvReturn = 1 \<and>
   held (semaphore run_mixed) \<le> 2 \<and>
   wpc (workers run_q1_in_flight ! 0) = InFlight q1_request \<and>
   returned (wpc (workers (run mock_lib (replicate 5 (Sched 0)) run_q1_in_flight) ! 0)) \<and>
   count_list (events_of 0 (trace (run mock_lib (replicate 5 (Sched 0)) run_q1_in_flight))) EvReturn = 1"
proof -
  have m: "map wpc (workers run_mixed) = [Done, Done, Done, Done]"
      "(0::nat) < length (workers run_mixed)" "(1::nat) < length (workers run_mixed)"
      "(3::nat) < length (workers run_mixed)"
      "wpc (workers run_mixed ! 0) = Done" "wpc (workers run_mixed ! 1) = Done"
      "wpc (workers run_mixed ! 3) = Done"
      "wq (workers run_mixed ! 0) = ''up''" "wq (workers run_mixed ! 1) = ''html''"
      "wq (workers run_mixed ! 3) = ''q1''"
    by code_simp+
  have q: "query_request mock_lib mock_client ''up'' = Inr up_request"
      "query_request mock_lib mock_client ''html'' = Inr html_request"
      "query_request mock_lib mock_client ''q1'' = Inr q1_request"
      "do_err (client_Do mock_client up_request) = None"
      "do_err (client_Do mock_client html_request) = None"
      "do_err (client_Do mock_client q1_request) = Some ''server error''"
      "do_warnings (client_Do mock_client up_request) = [''slow'']"
      "do_warnings (client_Do mock_client html_request) = []"
      "do_warnings (client_Do mock_client q1_request) = []"
      "promErr mock_lib mock_client ''html'' = Some ''Error invalid character fetching query html''"
    by code_simp+
  have b: "(0::nat) < length (workers run_badhost)" "wpc (workers run_badhost ! 0) = Done"
      "wq (workers run_badhost ! 0) = ''up''"
      "query_request mock_lib mock_client_badhost ''up'' = Inl ''invalid character in host name''"
    by code_simp+
  have f: "(0::nat) < length (workers run_q1_in_flight)"
      "wpc (workers run_q1_in_flight ! 0) = InFlight q1_request"
    by code_simp+
  note T1 = permit_released_exactly_once [where lib = mock_lib and client = mock_client and n = 2
      and acts = mixed_acts, unfolded Let_def, folded run_mixed_def]
  have e20: "(NewContext mock_client_badhost)\<lparr>semaphore := NewSemaphore 20\<rparr> = NewContext mock_client_badhost"
    by (simp add: NewContext_def)
  note T2 = permit_released_exactly_once [where lib = mock_lib and client = mock_client_badhost
      and n = 20 and acts = "Call ''up'' # replicate 9 (Sched 0)", unfolded Let_def e20,
      folded run_badhost_def]
  note T3 = permit_released_exactly_once [where lib = mock_lib and client = mock_client and n = 1
      and acts = "[Call ''q1'', Sched 0, Sched 0]", unfolded Let_def, folded run_q1_in_flight_def]
  note P0 = T1 [THEN conjunct2, THEN conjunct2, THEN conjunct2, THEN conjunct1, rule_format, OF m(2)]
  note P1 = T1 [THEN conjunct2, THEN conjunct2, THEN conjunct2, THEN conjunct1, rule_format, OF m(3)]
  note P3 = T1 [THEN conjunct2, THEN conjunct2, THEN conjunct2, THEN conjunct1, rule_format, OF m(4)]
  note B0 = T2 [THEN conjunct2, THEN conjunct2, THEN conjunct2, THEN conjunct1, rule_format, OF b(1)]
  note F0 = T3 [THEN conjunct2, THEN conjunct2, THEN conjunct2, THEN conjunct1, rule_format, OF f(1)]
  from P0 have c0: "count_list (events_of 0 (trace run_mixed)) EvAcquire = 1"
      "count_list (events_of 0 (trace run_mixed)) EvReturn = 1"
      "take 5 (events_of 0 (trace run_mixed)) =
         [EvAcquire, EvDo up_request, EvResponse [''slow''], EvUnmarshal, EvReturn]"
    by (simp_all add: m(5) m(8) q)
  from P1 [unfolded m(6) m(9)] have c1: "count_list (events_of 1 (trace run_mixed)) EvAcquire = 1"
      "count_list (events_of 1 (trace run_mixed)) EvReturn = 1"
      "take 5 (events_of 1 (trace run_mixed)) =
         [EvAcquire, EvDo html_request, EvResponse [], EvUnmarshal, EvReturn]"
    by (simp_all add: q)
  from P3 have c3: "count_list (events_of 3 (trace run_mixed)) EvAcquire = 1"
      "count_list (events_of 3 (trace run_mixed)) EvReturn = 1"
      "take 4 (events_of 3 (trace run_mixed)) = [EvAcquire, EvDo q1_request, EvResponse [], EvReturn]"
    by (simp_all add: m(7) m(10) q)
  from B0 have cb: "count_list (events_of 0 (trace run_badhost)) EvAcquire = 1"
      "count_list (events_of 0 (trace run_badhost)) EvReturn = 1"
      "take 3 (events_of 0 (trace run_badhost)) = [EvAcquire, EvNewRequestFailed, EvReturn]"
    by (simp_all add: b)
  from F0 have cf: "returned (wpc (workers (run mock_lib (replicate 5 (Sched 0)) run_q1_in_flight) ! 0))"
      "count_list (events_of 0 (trace (run mock_lib (replicate 5 (Sched 0)) run_q1_in_flight))) EvReturn = 1"
    by (simp_all add: f(2))
  from T1 have h: "held (semaphore run_mixed) \<le> 2" by blast
  from m(1) q(10) f(2) c0 c1 c3 cb cf h show ?thesis by (simp only: simp_thms)
qed


section \<open>No failure is raised, none is lost\<close>

text \<open>What a goroutine that has ended leaves behind.\<close>

lemma ended:
  assumes I: "inv lib s" and i: "i < length (workers s)" and d: "wpc (workers s ! i) = Done"
  shows "delivered (chans s ! i) = [results lib (Client s) (wq (workers s ! i))] \<and>
         set (query_errors lib (Client s) (wq (workers s ! i))) \<subseteq> set (Errors (ErrorCollector s)) \<and>
         (failed lib (Client s) (wq (workers s ! i)) \<longrightarrow> delivered (chans s ! i) = [[]])"
proof -
  from channel_contents(1) [OF I i] d
  have v: "delivered (chans s ! i) = [results lib (Client s) (wq (workers s ! i))]"
    by simp
  from I have "ErrorCollector s = reports (map snd (trace s))"
    by (simp add: inv_def)
  with reports_sublist [of i "trace s"] Done_history [OF I i d]
  have "set (query_errors lib (Client s) (wq (workers s ! i))) \<subseteq> set (Errors (ErrorCollector s))"
    by (simp add: worker_events_reports Errors_def)
  with v show ?thesis by (simp add: failed_results)
qed

text \<open>C7. \<open>Query\<close> and \<open>QueryAll\<close> return only channels, never an error, and do not
  themselves touch the collector: in every execution the errors of a query are met by its
  goroutine, which puts each of them into the shared collector and still sends a value on
  its own channel, the zero result if the query failed in transport, decoding or parsing.
  No failure stops a goroutine short of that: one that has its permit, or for which one
  is free, has reported and sent within nine of its own statements, and every execution
  can be continued, without further calls, until every goroutine has. The value on a
  channel is a function of that channel's query alone, and a statement of one goroutine
  leaves the control point and the channel of every other goroutine as they were.\<close>

theorem errors_funneled:
  "(let s = run lib acts (NewContext client) in
    ErrorCollector (snd (QueryAll queries s)) = ErrorCollector s \<and>
    (\<forall>i < length (workers s).
       (wpc (workers s ! i) = Done \<longrightarrow>
          delivered (chans s ! i) = [results lib client (wq (workers s ! i))] \<and>
          set (query_errors lib client (wq (workers s ! i))) \<subseteq> set (Errors (ErrorCollector s)) \<and>
          (failed lib client (wq (workers s ! i)) \<longrightarrow> delivered (chans s ! i) = [[]])) \<and>
       (wpc (workers s ! i) \<noteq> AwaitPermit \<or> held (semaphore s) < capacity (semaphore s) \<longrightarrow>
          wpc (workers (run lib (replicate 9 (Sched i)) s) ! i) = Done \<and>
          delivered (chans (run lib (replicate 9 (Sched i)) s) ! i) =
            [results lib client (wq (workers s ! i))] \<and>
          set (query_errors lib client (wq (workers s ! i)))
            \<subseteq> set (Errors (ErrorCollector (run lib (replicate 9 (Sched i)) s))) \<and>
          (failed lib client (wq (workers s ! i)) \<longrightarrow>
             delivered (chans (run lib (replicate 9 (Sched i)) s) ! i) = [[]])) \<and>
       (\<forall>j s'. step lib j s = Some s' \<and> j \<noteq> i \<longrightarrow>
          workers s' ! i = workers s ! i \<and> chans s' ! i = chans s ! i)) \<and>
    (\<exists>more. calls more = [] \<and>
       (\<forall>i < length (workers s).
          wpc (workers (run lib more s) ! i) = Done \<and>
          delivered (chans (run lib more s) ! i) = [results lib client (wq (workers s ! i))] \<and>
          set (query_errors lib client (wq (workers s ! i)))
            \<subseteq> set (Errors (ErrorCollector (run lib more s))) \<and>
          (failed lib client (wq (workers s ! i)) \<longrightarrow>
             delivered (chans (run lib more s) ! i) = [[]]))))"
proof -
  define s where "s = run lib acts (NewContext client)"
  have I: "inv lib s"
    unfolding s_def by (rule inv_run) (rule inv_NewContext)
  have cl: "Client s = client"
    by (simp add: s_def Client_run NewContext_def)
  have now: "delivered (chans s ! i) = [results lib client (wq (workers s ! i))] \<and>
          set (query_errors lib client (wq (workers s ! i))) \<subseteq> set (Errors (ErrorCollector s)) \<and>
          (failed lib client (wq (workers s ! i)) \<longrightarrow> delivered (chans s ! i) = [[]])"
    if "i < length (workers s)" "wpc (workers s ! i) = Done" for i
    by (rule ended [OF I that, unfolded cl])
  have solo: "wpc (workers (run lib (replicate 9 (Sched i)) s) ! i) = Done \<and>
          delivered (chans (run lib (replicate 9 (Sched i)) s) ! i) =
            [results lib client (wq (workers s ! i))] \<and>
          set (query_errors lib client (wq (workers s ! i)))
            \<subseteq> set (Errors (ErrorCollector (run lib (replicate 9 (Sched i)) s))) \<and>
          (failed lib client (wq (workers s ! i)) \<longrightarrow>
             delivered (chans (run lib (replicate 9 (Sched i)) s) ! i) = [[]])"
    if i: "i < length (workers s)"
      and free: "wpc (workers s ! i) \<noteq> AwaitPermit \<or> held (semaphore s) < capacity (semaphore s)"
    for i
  proof -
    let ?s2 = "run lib (replicate 9 (Sched i)) s"
    from free have "wpc (workers s ! i) = AwaitPermit \<longrightarrow> held (semaphore s) < capacity (semaphore s)"
      by blast
    from solo_run [OF I i this, of 9]
    have d: "wpc (workers ?s2 ! i) = Done" and q: "wq (workers ?s2 ! i) = wq (workers s ! i)"
      and l: "i < length (workers ?s2)"
      using i by simp_all
    have I2: "inv lib ?s2" using I by (rule inv_run)
    have cl2: "Client ?s2 = client" by (simp add: Client_run cl)
    from ended [OF I2 l d, unfolded cl2 q] d show ?thesis by blast
  qed
  have frame: "workers s' ! i = workers s ! i \<and> chans s' ! i = chans s ! i"
    if "i < length (workers s)" "step lib j s = Some s'" "j \<noteq> i" for i j s'
    using step_frame [OF I that(2) that(1)] that(3) by blast
  have "capacity (semaphore s) = 20"
    by (simp add: s_def capacity_run NewContext_def NewSemaphore_def)
  with can_finish [OF I] obtain more where
    c: "calls more = []" and d: "\<forall>w \<in> set (workers (run lib more s)). wpc w = Done"
    by auto
  let ?s3 = "run lib more s"
  have I3: "inv lib ?s3" using I by (rule inv_run)
  have cl3: "Client ?s3 = client" by (simp add: Client_run cl)
  have qs: "map wq (workers ?s3) = map wq (workers s)"
    by (simp add: queries_run c)
  then have len: "length (workers ?s3) = length (workers s)"
    by (metis length_map)
  have fin: "wpc (workers ?s3 ! i) = Done \<and>
          delivered (chans ?s3 ! i) = [results lib client (wq (workers s ! i))] \<and>
          set (query_errors lib client (wq (workers s ! i))) \<subseteq> set (Errors (ErrorCollector ?s3)) \<and>
          (failed lib client (wq (workers s ! i)) \<longrightarrow> delivered (chans ?s3 ! i) = [[]])"
    if i: "i < length (workers s)" for i
  proof -
    from i len have l: "i < length (workers ?s3)" by simp
    with d have dn: "wpc (workers ?s3 ! i) = Done" by simp
    from qs l i have q: "wq (workers ?s3 ! i) = wq (workers s ! i)"
      by (metis nth_map)
    from ended [OF I3 l dn, unfolded cl3 q] dn show ?thesis by blast
  qed
  have "ErrorCollector (snd (QueryAll queries s)) = ErrorCollector s"
    by (rule QueryAll_frame)
  with now solo frame c fin show ?thesis
    unfolding s_def [symmetric] Let_def by blast
qed


theorem errors_funneled_witness:
  "map wpc (workers run_four) = [Done, Done, Done, Done] \<and>
   failed mock_lib mock_client ''html'' \<and> failed mock_lib mock_client ''odd'' \<and>
   failed mock_lib mock_client ''q1'' \<and> failed mock_lib mock_client_badhost ''up'' \<and>
   delivered (chans run_four ! 0) = [[JNumber ''1'']] \<and>
   delivered (chans run_four ! 1) = [[]] \<and>
   delivered (chans run_four ! 2) = [[]] \<and>
   delivered (chans run_four ! 3) = [[]] \<and>
   delivered (chans run_badhost ! 0) = [[]] \<and>
   set [''Error invalid character fetching query html'', parse_error]
     \<subseteq> set (Errors (ErrorCollector run_four)) \<and>
   set [parse_error] \<subseteq> set (Errors (ErrorCollector run_four)) \<and>
   set [''500 Error server error fetching query q1'', parse_error]
     \<subseteq> set (Errors (ErrorCollector run_four)) \<and>
   set [''invalid character in host name'', parse_error]
     \<subseteq> set (Errors (ErrorCollector run_badhost)) \<and>
   wpc (workers run_q1_called ! 0) = AwaitPermit \<and>
   held (semaphore run_q1_called) < capacity (semaphore run_q1_called) \<and>
   wpc (workers (run mock_lib (replicate 9 (Sched 0)) run_q1_called) ! 0) = Done \<and>
   delivered (chans (run mock_lib (replicate 9 (Sched 0)) run_q1_called) ! 0) = [[]] \<and>
   set [''500 Error server error fetching query q1'', parse_error]
     \<subseteq> set (Errors (ErrorCollector (run mock_lib (replicate 9 (Sched 0)) run_q1_called)))"
proof -
  have m: "map wpc (workers run_four) = [Done, Done, Done, Done]"
      "(0::nat) < length (workers run_four)" "(1::nat) < length (workers run_four)"
      "(2::nat) < length (workers run_four)" "(3::nat) < length (workers run_four)"
      "wpc (workers run_four ! 0) = Done" "wpc (workers run_four ! 1) = Done"
      "wpc (workers run_four ! 2) = Done" "wpc (workers run_four ! 3) = Done"
      "wq (workers run_four ! 0) = ''up''" "wq (workers run_four ! 1) = ''html''"
      "wq (workers run_four ! 2) = ''odd''" "wq (workers run_four ! 3) = ''q1''"
    by code_simp+
  have q: "results mock_lib mock_client ''up'' = [JNumber ''1'']"
      "failed mock_lib mock_client ''html''" "failed mock_lib mock_client ''odd''"
      "failed mock_lib mock_client ''q1''" "failed mock_lib mock_client_badhost ''up''"
      "query_errors mock_lib mock_client ''html'' =
         [''Error invalid character fetching query html'', parse_error]"
      "query_errors mock_lib mock_client ''odd'' = [parse_error]"
      "query_errors mock_lib mock_client ''q1'' =
         [''500 Error server error fetching query q1'', parse_error]"
      "query_errors mock_lib mock_client_badhost ''up'' =
         [''invalid character in host name'', parse_error]"
    by code_simp+
  have b: "(0::nat) < length (workers run_badhost)" "wpc (workers run_badhost ! 0) = Done"
      "wq (workers run_badhost ! 0) = ''up''"
    by code_simp+
  have f: "(0::nat) < length (workers run_q1_called)"
      "wpc (workers run_q1_called ! 0) = AwaitPermit"
      "held (semaphore run_q1_called) < capacity (semaphore run_q1_called)"
      "wq (workers run_q1_called ! 0) = ''q1''"
    by code_simp+
  note T1 = errors_funneled [where lib = mock_lib and client = mock_client and acts = mixed_acts
      and queries = "[]", unfolded Let_def, folded run_four_def, THEN conjunct2, THEN conjunct1]
  note T2 = errors_funneled [where lib = mock_lib and client = mock_client_badhost
      and acts = "Call ''up'' # replicate 9 (Sched 0)" and queries = "[]", unfolded Let_def,
      folded run_badhost_def, THEN conjunct2, THEN conjunct1]
  note T3 = errors_funneled [where lib = mock_lib and client = mock_client
      and acts = "[Call ''q1'']" and queries = "[]", unfolded Let_def,
      folded run_q1_called_def, THEN conjunct2, THEN conjunct1]
  note P0 = T1 [rule_format, OF m(2), THEN conjunct1, THEN mp, OF m(6), unfolded m(10)]
  note P1 = T1 [rule_format, OF m(3), THEN conjunct1, THEN mp, OF m(7), unfolded m(11)]
  note P2 = T1 [rule_format, OF m(4), THEN conjunct1, THEN mp, OF m(8), unfolded m(12)]
  note P3 = T1 [rule_format, OF m(5), THEN conjunct1, THEN mp, OF m(9), unfolded m(13)]
  note B0 = T2 [rule_format, OF b(1), THEN conjunct1, THEN mp, OF b(2), unfolded b(3)]
  have free: "wpc (workers run_q1_called ! 0) \<noteq> AwaitPermit \<or>
      held (semaphore run_q1_called) < capacity (semaphore run_q1_called)"
    using f(3) by (rule disjI2)
  note F0 = T3 [rule_format, OF f(1), THEN conjunct2, THEN conjunct1, THEN mp, OF free, unfolded f(4)]
  from P0 have c0: "delivered (chans run_four ! 0) = [[JNumber ''1'']]"
    unfolding q(1) by blast
  from P1 q(2) have c1: "delivered (chans run_four ! 1) = [[]]"
      "set [''Error invalid character fetching query html'', parse_error]
         \<subseteq> set (Errors (ErrorCollector run_four))"
    unfolding q(6) by blast+
  from P2 q(3) have c2: "delivered (chans run_four ! 2) = [[]]"
      "set [parse_error] \<subseteq> set (Errors (ErrorCollector run_four))"
    unfolding q(7) by blast+
  from P3 q(4) have c3: "delivered (chans run_four ! 3) = [[]]"
      "set [''500 Error server error fetching query q1'', parse_error]
         \<subseteq> set (Errors (ErrorCollector run_four))"
    unfolding q(8) by blast+
  from B0 q(5) have cb: "delivered (chans run_badhost ! 0) = [[]]"
      "set [''invalid character in host name'', parse_error]
         \<subseteq> set (Errors (ErrorCollector run_badhost))"
    unfolding q(9) by blast+
  from F0 q(4) have cf: "wpc (workers (run mock_lib (replicate 9 (Sched 0)) run_q1_called) ! 0) = Done"
      "delivered (chans (run mock_lib (replicate 9 (Sched 0)) run_q1_called) ! 0) = [[]]"
      "set [''500 Error server error fetching query q1'', parse_error]
         \<subseteq> set (Errors (ErrorCollector (run mock_lib (replicate 9 (Sched 0)) run_q1_called)))"
    unfolding q(8) by blast+
  from m(1) q(2-5) f(2,3) c0 c1 c2 c3 cb cf show ?thesis by (simp only: simp_thms)
qed


section \<open>One request for each query\<close>
















end
